theory Spec2Isabelle
  imports Complex_Main
begin

section \<open>Toast overlays: the manager thread of \<^verbatim>\<open>seedsigner/gui/toast.py\<close>\<close>

text \<open>
  The file \<^verbatim>\<open>src/seedsigner/gui/toast.py\<close> defines the payload \<^verbatim>\<open>ToastOverlay\<close>, the
  manager thread \<^verbatim>\<open>BaseToastOverlayManagerThread\<close> and its two variants. The thread's
  \<^verbatim>\<open>run\<close> method is sequential code that talks to collaborators which are not part of
  the file: the clock and \<^verbatim>\<open>sleep\<close> of the module \<^verbatim>\<open>time\<close> (the file uses the name
  \<^verbatim>\<open>time\<close> without importing it; it is taken here as the standard module, supplied from
  outside), the renderer with its lock and canvas, the hardware buttons and the MicroSD
  reader. Two fields of the thread object, \<^verbatim>\<open>keep_running\<close> and
  \<^verbatim>\<open>_toggle_renderer_lock\<close>, are written by the host while the thread runs.

  The embedding is a step function on the thread's state. One step is one interaction
  with the outside: a call of a collaborator, or a read or write of one of the two shared
  fields. The program counter names the source line of the pending interaction. What the
  outside does is the input of the step: whether the host has requested a stop or a lock
  yield since the previous step, whether the call raises, and what it returns. A run is
  the fold of the step function over a list of such inputs, so every finite prefix of
  every behaviour of the thread against every environment is a run; a blocking call that
  never returns is a list that ends before the call's answer. The \<^verbatim>\<open>print\<close>
  statements write diagnostics to standard output; they are taken to return and are not
  events (the flag that line 136 prints is read again at line 138; the clock call of line
  136 is an event). Times are exact reals in seconds; floating-point rounding is not
  modelled.
\<close>

subsection \<open>The payload and the constants of the GUI\<close>

text \<open>
  \<^verbatim>\<open>GUIConstants\<close> and \<^verbatim>\<open>FontAwesomeIconConstants\<close> are declared elsewhere in the
  repository; the constants the file uses are taken as a parameter.
\<close>

record gui_constants =
  NOTIFICATION_COLOR :: string
  ICON_TOAST_FONT_SIZE :: int
  EDGE_PADDING :: int
  BODY_FONT_SIZE :: int
  BODY_LINE_SPACING :: int
  SDCARD :: string

record toast_overlay =
  icon_name :: "string option"
  color :: string
  label_text :: "string option"
  height :: int
  font_size :: int
  outline_thickness :: int

text \<open>The dataclass defaults of \<^verbatim>\<open>ToastOverlay\<close> (lines 9 to 14).\<close>

definition ToastOverlay :: "gui_constants \<Rightarrow> toast_overlay" where
  "ToastOverlay G =
     \<lparr>icon_name = None,
      color = NOTIFICATION_COLOR G,
      label_text = None,
      height = ICON_TOAST_FONT_SIZE G + 2 * EDGE_PADDING G,
      font_size = 19,
      outline_thickness = 2\<rparr>"

subsection \<open>Construction\<close>

datatype error = Exception string

datatype variant = BaseToastOverlayManagerThread | RemoveSDCardToastManagerThread
  | SDCardStateChangeToastManagerThread

type_synonym frame = nat

text \<open>
  The thread object after \<^verbatim>\<open>__init__\<close>. \<^verbatim>\<open>message\<close> is set by the state-change
  variant only.
\<close>

record toast_thread =
  variant_of :: variant
  activation_delay :: real
  duration :: real
  toggle_renderer_lock_flag :: bool
  message :: "string option"
  toast :: toast_overlay

text \<open>
  What a constructor does to the outside, in order: \<^verbatim>\<open>super().__init__()\<close> of
  \<^verbatim>\<open>BaseThread\<close> creates the thread state (line 88), and line 98 sets
  \<^verbatim>\<open>override_ind\<close> of the shared \<^verbatim>\<open>HardwareButtons\<close> instance.
\<close>

datatype ctor_event = BaseThreadInit | SetOverrideInd

record hardware_buttons =
  override_ind :: bool

text \<open>\<^verbatim>\<open>instantiate_toast\<close> of the base class (line 104) and of the variants (187, 213).\<close>

definition instantiate_toast ::
    "gui_constants \<Rightarrow> variant \<Rightarrow> string option \<Rightarrow> error + toast_overlay" where
  "instantiate_toast G v msg =
     (case v of
        BaseToastOverlayManagerThread \<Rightarrow> Inl (Exception ''Must be implemented by subclass'')
      | RemoveSDCardToastManagerThread \<Rightarrow>
          Inr ((ToastOverlay G)
                 \<lparr>icon_name := Some (SDCARD G),
                  label_text := Some (''Security tip:'' @ [CHR 0x0A] @ ''Remove SD card''),
                  font_size := BODY_FONT_SIZE G,
                  height := BODY_FONT_SIZE G * 2 + BODY_LINE_SPACING G + EDGE_PADDING G\<rparr>)
      | SDCardStateChangeToastManagerThread \<Rightarrow>
          Inr ((ToastOverlay G)\<lparr>icon_name := Some (SDCARD G), label_text := msg\<rparr>))"

text \<open>
  \<^verbatim>\<open>BaseToastOverlayManagerThread.__init__\<close> (lines 81 to 100). The result is the state of
  the hardware buttons, the events performed, and the object or the exception: an
  exception raised by \<^verbatim>\<open>instantiate_toast\<close> on line 100 leaves the earlier effects in
  place.
\<close>

definition base_init ::
    "gui_constants \<Rightarrow> variant \<Rightarrow> string option \<Rightarrow> real \<Rightarrow> real \<Rightarrow> hardware_buttons \<Rightarrow>
       hardware_buttons \<times> ctor_event list \<times> (error + toast_thread)" where
  "base_init G v msg delay dur hw =
     (hw\<lparr>override_ind := True\<rparr>,
      [BaseThreadInit, SetOverrideInd],
      (case instantiate_toast G v msg of
         Inl e \<Rightarrow> Inl e
       | Inr t \<Rightarrow>
           Inr \<lparr>variant_of = v, activation_delay = delay, duration = dur,
                toggle_renderer_lock_flag = False, message = msg, toast = t\<rparr>))"

text \<open>
  \<^verbatim>\<open>RemoveSDCardToastManagerThread.__init__\<close> (lines 179 to 183): a delay of 3 seconds and
  a duration of \<^verbatim>\<open>1e6\<close> seconds.
\<close>

definition remove_sd_card_init ::
    "gui_constants \<Rightarrow> hardware_buttons \<Rightarrow>
       hardware_buttons \<times> ctor_event list \<times> (error + toast_thread)" where
  "remove_sd_card_init G hw = base_init G RemoveSDCardToastManagerThread None 3 1000000 hw"

text \<open>
  \<^verbatim>\<open>SDCardStateChangeToastManagerThread.__init__\<close> (lines 203 to 209). The two action
  names \<^verbatim>\<open>MicroSD.ACTION__INSERTED\<close> and \<^verbatim>\<open>MicroSD.ACTION__REMOVED\<close> are declared
  elsewhere and are parameters; the remaining arguments are passed on to the base
  constructor.
\<close>

definition sd_card_state_change_init ::
    "gui_constants \<Rightarrow> string \<Rightarrow> string \<Rightarrow> string \<Rightarrow> real \<Rightarrow> real \<Rightarrow> hardware_buttons \<Rightarrow>
       hardware_buttons \<times> ctor_event list \<times> (error + toast_thread)" where
  "sd_card_state_change_init G ACTION_INSERTED ACTION_REMOVED action delay dur hw =
     (if action \<notin> set [ACTION_INSERTED, ACTION_REMOVED]
      then (hw, [], Inl (Exception (''Invalid MicroSD action: '' @ action)))
      else base_init G SDCardStateChangeToastManagerThread
             (Some (if action = ACTION_REMOVED then ''SD card removed'' else ''SD card inserted''))
             delay dur hw)"

text \<open>Instantiating the base class itself, with the arguments of line 81.\<close>

definition base_toast_init ::
    "gui_constants \<Rightarrow> real \<Rightarrow> real \<Rightarrow> hardware_buttons \<Rightarrow>
       hardware_buttons \<times> ctor_event list \<times> (error + toast_thread)" where
  "base_toast_init G delay dur hw = base_init G BaseToastOverlayManagerThread None delay dur hw"

subsection \<open>The state of a running thread\<close>

text \<open>
  The program counter: the source line of the pending interaction, or \<open>Exited\<close> once
  \<^verbatim>\<open>run\<close> has returned or raised. \<open>L198\<close> is the call of \<^verbatim>\<open>MicroSD.is_inserted\<close> in the
  \<^verbatim>\<open>should_keep_running\<close> of the media-removal variant, reached from the loop test of
  line 130.
\<close>

datatype label =
    L119 | L123 | L128 | L130 | L198 | L131 | L136 | L138 | L141 | L142 | L145 | L147
  | L151 | L155 | L157 | L160 | L165 | L169 | L171 | L174 | Exited

datatype call =
    TimeTime | TimeSleep real | LockAcquire | LockRelease | LockLocked
  | ReadKeepRunning | MicroSDIsInserted | HasAnyInput | ReadToggle | ClearToggle
  | CanvasCopy | ToastRender | ShowImage "frame option"

datatype result = Raised | Returned | Answer bool | Now real | Snapshot frame

type_synonym event = "label \<times> call \<times> result"

text \<open>
  The locals of \<^verbatim>\<open>run\<close> are unbound (\<open>None\<close>) until their first assignment: reading
  an unbound local raises \<^verbatim>\<open>UnboundLocalError\<close>. \<open>raised\<close> records that an exception is
  propagating out of \<^verbatim>\<open>run\<close>.
\<close>

record run_state =
  self :: toast_thread
  keep_running :: bool
  previous_screen_state :: "frame option"
  pc :: label
  start :: "real option"
  has_rendered :: "bool option"
  raised :: bool

text \<open>The input of one step.\<close>

record inp =
  stop_req :: bool
  yield_req :: bool
  raises :: bool
  flag :: bool
  clock :: real
  canvas :: frame

text \<open>\<^verbatim>\<open>toggle_renderer_lock\<close> (lines 112 and 113), called by the host.\<close>

definition toggle_renderer_lock :: "run_state \<Rightarrow> run_state" where
  "toggle_renderer_lock s = s\<lparr>self := (self s)\<lparr>toggle_renderer_lock_flag := True\<rparr>\<rparr>"

text \<open>The host's stop request: \<^verbatim>\<open>keep_running = False\<close> (docstring, line 68).\<close>

definition request_stop :: "run_state \<Rightarrow> run_state" where
  "request_stop s = s\<lparr>keep_running := False\<rparr>"

definition host :: "inp \<Rightarrow> run_state \<Rightarrow> run_state" where
  "host i s =
     (let s1 = (if stop_req i then request_stop s else s)
      in if yield_req i then toggle_renderer_lock s1 else s1)"

text \<open>
  Modelled from the spec: \<^verbatim>\<open>BaseThread.start\<close> is not in the file. A started thread has
  \<open>keep_running\<close> true until a stop is requested, and begins \<^verbatim>\<open>run\<close> at its first
  statement with no local bound.
\<close>

definition started :: "toast_thread \<Rightarrow> run_state" where
  "started t =
     \<lparr>self = t, keep_running = True, previous_screen_state = None, pc = L119,
      start = None, has_rendered = None, raised = False\<rparr>"

subsection \<open>The body of \<^verbatim>\<open>run\<close>\<close>

text \<open>
  Entering the \<^verbatim>\<open>finally\<close> block (line 167). Line 169 evaluates \<^verbatim>\<open>has_rendered\<close>
  first: unbound, the block itself raises and nothing of it runs; false, the conjunction
  short-circuits and line 174 is next; true, \<^verbatim>\<open>lock.locked()\<close> is called.
\<close>

definition enter_finally :: "run_state \<Rightarrow> run_state" where
  "enter_finally s =
     (case has_rendered s of
        None \<Rightarrow> s\<lparr>pc := Exited, raised := True\<rparr>
      | Some True \<Rightarrow> s\<lparr>pc := L169\<rparr>
      | Some False \<Rightarrow> s\<lparr>pc := L174\<rparr>)"

text \<open>An exception in the \<^verbatim>\<open>try\<close> body, and one in the \<^verbatim>\<open>finally\<close> block.\<close>

definition fault :: "run_state \<Rightarrow> run_state" where
  "fault s = enter_finally (s\<lparr>raised := True\<rparr>)"

definition abort :: "run_state \<Rightarrow> run_state" where
  "abort s = s\<lparr>pc := Exited, raised := True\<rparr>"

text \<open>Line 154: \<^verbatim>\<open>if not has_rendered\<close>.\<close>

definition line_154 :: "run_state \<Rightarrow> run_state" where
  "line_154 s =
     (case has_rendered s of
        None \<Rightarrow> fault s
      | Some True \<Rightarrow> s\<lparr>pc := L160\<rparr>
      | Some False \<Rightarrow> s\<lparr>pc := L155\<rparr>)"

text \<open>
  A call in the \<^verbatim>\<open>try\<close> body: it raises, or returns \<open>res\<close> and the thread goes on
  as \<open>s'\<close>.
\<close>

definition try_call ::
    "label \<Rightarrow> call \<Rightarrow> inp \<Rightarrow> result \<Rightarrow> run_state \<Rightarrow> run_state \<Rightarrow> run_state \<times> event list" where
  "try_call l c i res s s' =
     (if raises i then (fault s, [(l, c, Raised)]) else (s', [(l, c, res)]))"

definition finally_call ::
    "label \<Rightarrow> call \<Rightarrow> inp \<Rightarrow> result \<Rightarrow> run_state \<Rightarrow> run_state \<Rightarrow> run_state \<times> event list" where
  "finally_call l c i res s s' =
     (if raises i then (abort s, [(l, c, Raised)]) else (s', [(l, c, res)]))"

text \<open>The pending interaction of each line, after the host's requests have taken effect.\<close>

definition at_line :: "inp \<Rightarrow> run_state \<Rightarrow> run_state \<times> event list" where
  "at_line i s =
     (case pc s of
        L119 \<Rightarrow>
          try_call L119 TimeTime i (Now (clock i)) s
            (s\<lparr>start := Some (clock i), has_rendered := Some False,
               previous_screen_state := None,
               pc := (if activation_delay (self s) > 0 then L123 else L128)\<rparr>)
      | L123 \<Rightarrow>
          try_call L123 (TimeSleep (activation_delay (self s))) i Returned s (s\<lparr>pc := L128\<rparr>)
      | L128 \<Rightarrow> try_call L128 LockAcquire i Returned s (s\<lparr>pc := L130\<rparr>)
      | L130 \<Rightarrow>
          (if keep_running s
           then (case variant_of (self s) of
                   RemoveSDCardToastManagerThread \<Rightarrow> s\<lparr>pc := L198\<rparr>
                 | _ \<Rightarrow> s\<lparr>pc := L131\<rparr>)
           else enter_finally s,
           [(L130, ReadKeepRunning, Answer (keep_running s))])
      | L198 \<Rightarrow>
          try_call L198 MicroSDIsInserted i (Answer (flag i)) s
            (if flag i then s\<lparr>pc := L131\<rparr> else enter_finally s)
      | L131 \<Rightarrow>
          try_call L131 HasAnyInput i (Answer (flag i)) s
            (if flag i then enter_finally s else s\<lparr>pc := L136\<rparr>)
      | L136 \<Rightarrow> try_call L136 TimeTime i (Now (clock i)) s (s\<lparr>pc := L138\<rparr>)
      | L138 \<Rightarrow>
          (if toggle_renderer_lock_flag (self s) then s\<lparr>pc := L141\<rparr> else line_154 s,
           [(L138, ReadToggle, Answer (toggle_renderer_lock_flag (self s)))])
      | L141 \<Rightarrow>
          (s\<lparr>self := (self s)\<lparr>toggle_renderer_lock_flag := False\<rparr>, pc := L142\<rparr>,
           [(L141, ClearToggle, Returned)])
      | L142 \<Rightarrow> try_call L142 LockRelease i Returned s (s\<lparr>pc := L145\<rparr>)
      | L145 \<Rightarrow>
          try_call L145 LockLocked i (Answer (flag i)) s
            (if flag i then s\<lparr>pc := L151\<rparr> else s\<lparr>pc := L147\<rparr>)
      | L147 \<Rightarrow> try_call L147 (TimeSleep (1 / 10)) i Returned s (s\<lparr>pc := L145\<rparr>)
      | L151 \<Rightarrow> try_call L151 LockAcquire i Returned s (line_154 s)
      | L155 \<Rightarrow>
          try_call L155 CanvasCopy i (Snapshot (canvas i)) s
            (s\<lparr>previous_screen_state := Some (canvas i), pc := L157\<rparr>)
      | L157 \<Rightarrow>
          try_call L157 ToastRender i Returned s (s\<lparr>has_rendered := Some True, pc := L160\<rparr>)
      | L160 \<Rightarrow>
          try_call L160 TimeTime i (Now (clock i)) s
            (case start s of
               None \<Rightarrow> fault s
             | Some t0 \<Rightarrow>
                 if clock i - t0 > activation_delay (self s) + duration (self s)
                    \<and> has_rendered s = Some True
                 then enter_finally s
                 else s\<lparr>pc := L165\<rparr>)
      | L165 \<Rightarrow> try_call L165 (TimeSleep (1 / 10)) i Returned s (s\<lparr>pc := L130\<rparr>)
      | L169 \<Rightarrow>
          finally_call L169 LockLocked i (Answer (flag i)) s
            (if flag i then s\<lparr>pc := L171\<rparr> else s\<lparr>pc := L174\<rparr>)
      | L171 \<Rightarrow>
          finally_call L171 (ShowImage (previous_screen_state s)) i Returned s (s\<lparr>pc := L174\<rparr>)
      | L174 \<Rightarrow> finally_call L174 LockRelease i Returned s (s\<lparr>pc := Exited\<rparr>)
      | Exited \<Rightarrow> (s, []))"

definition step :: "inp \<Rightarrow> run_state \<Rightarrow> run_state \<times> event list" where
  "step i s = (if pc s = Exited then (s, []) else at_line i (host i s))"

fun exec :: "inp list \<Rightarrow> run_state \<Rightarrow> run_state \<times> event list" where
  "exec [] s = (s, [])"
| "exec (i # is) s =
     (case step i s of (s1, es1) \<Rightarrow> (case exec is s1 of (s2, es2) \<Rightarrow> (s2, es1 @ es2)))"

definition run :: "toast_thread \<Rightarrow> inp list \<Rightarrow> run_state \<times> event list" where
  "run t is = exec is (started t)"

subsection \<open>Inputs\<close>

definition ok :: inp where
  "ok = \<lparr>stop_req = False, yield_req = False, raises = False, flag = False, clock = 0,
          canvas = 0\<rparr>"

definition answer :: "bool \<Rightarrow> inp" where
  "answer b = ok\<lparr>flag := b\<rparr>"

definition at_time :: "real \<Rightarrow> inp" where
  "at_time t = ok\<lparr>clock := t\<rparr>"

definition snapshot :: "frame \<Rightarrow> inp" where
  "snapshot f = ok\<lparr>canvas := f\<rparr>"

definition raising :: inp where
  "raising = ok\<lparr>raises := True\<rparr>"

text \<open>The host's requests, arriving while a call that returns is pending.\<close>

definition stop_request :: inp where
  "stop_request = ok\<lparr>stop_req := True\<rparr>"

definition yield_request :: inp where
  "yield_request = ok\<lparr>yield_req := True\<rparr>"

definition stop_and_yield_request :: inp where
  "stop_and_yield_request = ok\<lparr>stop_req := True, yield_req := True\<rparr>"

text \<open>Values for the constants of the GUI, for the concrete constructions below.\<close>

definition example_constants :: gui_constants where
  "example_constants =
     \<lparr>NOTIFICATION_COLOR = ''orange'', ICON_TOAST_FONT_SIZE = 30, EDGE_PADDING = 8,
      BODY_FONT_SIZE = 17, BODY_LINE_SPACING = 6, SDCARD = ''sd''\<rparr>"

text \<open>
  A state-change toast shown after an activation delay of 2 seconds, for 3 seconds.
\<close>

definition sd_toast :: toast_thread where
  "sd_toast =
     \<lparr>variant_of = SDCardStateChangeToastManagerThread, activation_delay = 2, duration = 3,
      toggle_renderer_lock_flag = False, message = Some ''SD card removed'',
      toast = \<lparr>icon_name = Some ''sd'', color = ''orange'', label_text = Some ''SD card removed'',
               height = 46, font_size = 19, outline_thickness = 2\<rparr>\<rparr>"

text \<open>A media-removal toast with the timing of lines 181 and 182.\<close>

definition remove_toast :: toast_thread where
  "remove_toast =
     \<lparr>variant_of = RemoveSDCardToastManagerThread, activation_delay = 3, duration = 1000000,
      toggle_renderer_lock_flag = False, message = None,
      toast = \<lparr>icon_name = Some ''sd'', color = ''orange'',
               label_text = Some (''Security tip:'' @ [CHR 0x0A] @ ''Remove SD card''),
               height = 48, font_size = 17, outline_thickness = 2\<rparr>\<rparr>"

text \<open>A thread at the loop test of line 130, with nothing painted yet.\<close>

definition at_loop_test :: "toast_thread \<Rightarrow> bool \<Rightarrow> run_state" where
  "at_loop_test t kr =
     (started t)\<lparr>keep_running := kr, start := Some 0, has_rendered := Some False, pc := L130\<rparr>"

text \<open>A thread in the poll sleep of line 165, the toast painted.\<close>

definition at_poll_sleep :: "toast_thread \<Rightarrow> run_state" where
  "at_poll_sleep t =
     (started t)\<lparr>previous_screen_state := Some 7, start := Some 0, has_rendered := Some True,
                 pc := L165\<rparr>"

subsection \<open>The inputs and events of the parts of a loop iteration\<close>

text \<open>
  The loop test of line 130 when it passes: \<^verbatim>\<open>keep_running\<close> is read as true, and the
  media-removal variant asks the MicroSD reader, which answers that the card is inserted
  (the other variants' \<^verbatim>\<open>should_keep_running\<close> returns true without a call). Then the
  lock handover of lines 141 to 151: the flag is cleared, the lock released, \<open>k\<close> polls
  of \<^verbatim>\<open>lock.locked()\<close> answer false with a sleep of 0.1 seconds after each, one poll
  answers true, and the lock is acquired again.
\<close>

definition loop_test_inputs :: "toast_thread \<Rightarrow> inp list" where
  "loop_test_inputs t =
     ok # (if variant_of t = RemoveSDCardToastManagerThread then [answer True] else [])"

definition loop_test_events :: "toast_thread \<Rightarrow> event list" where
  "loop_test_events t =
     (L130, ReadKeepRunning, Answer True)
     # (if variant_of t = RemoveSDCardToastManagerThread
        then [(L198, MicroSDIsInserted, Answer True)] else [])"

definition wait_inputs :: "nat \<Rightarrow> inp list" where
  "wait_inputs k = concat (replicate k [answer False, ok])"

definition wait_events :: "nat \<Rightarrow> event list" where
  "wait_events k =
     concat (replicate k [(L145, LockLocked, Answer False), (L147, TimeSleep (1 / 10), Returned)])"

definition yield_inputs :: "nat \<Rightarrow> inp list" where
  "yield_inputs k = [ok, ok] @ wait_inputs k @ [answer True, ok]"

definition yield_events :: "nat \<Rightarrow> event list" where
  "yield_events k =
     [(L141, ClearToggle, Returned), (L142, LockRelease, Returned)] @ wait_events k
     @ [(L145, LockLocked, Answer True), (L151, LockAcquire, Returned)]"

text \<open>
  A run without stop, input, yield or fault. The prologue: the clock is read, the
  activation delay (if any) is slept through, the lock is acquired. The first iteration
  captures and paints. Every later round starts with the duration check of line 160
  reading the clock as \<open>x\<close>, sleeps, and passes the checks of the next iteration.
\<close>

definition prologue_inputs :: "toast_thread \<Rightarrow> real \<Rightarrow> inp list" where
  "prologue_inputs t t0 = at_time t0 # (if activation_delay t > 0 then [ok] else []) @ [ok]"

definition prologue_events :: "toast_thread \<Rightarrow> real \<Rightarrow> event list" where
  "prologue_events t t0 =
     (L119, TimeTime, Now t0)
     # (if activation_delay t > 0 then [(L123, TimeSleep (activation_delay t), Returned)] else [])
     @ [(L128, LockAcquire, Returned)]"

definition first_paint_inputs :: "toast_thread \<Rightarrow> real \<Rightarrow> frame \<Rightarrow> inp list" where
  "first_paint_inputs t u f =
     loop_test_inputs t @ [answer False, at_time u, ok] @ [snapshot f, ok]"

definition first_paint_events :: "toast_thread \<Rightarrow> real \<Rightarrow> frame \<Rightarrow> event list" where
  "first_paint_events t u f =
     loop_test_events t
     @ [(L131, HasAnyInput, Answer False), (L136, TimeTime, Now u),
        (L138, ReadToggle, Answer False)]
     @ [(L155, CanvasCopy, Snapshot f), (L157, ToastRender, Returned)]"

definition quiet_round_inputs :: "toast_thread \<Rightarrow> real \<Rightarrow> inp list" where
  "quiet_round_inputs t x = [at_time x] @ [ok] @ loop_test_inputs t @ [answer False, at_time x, ok]"

definition quiet_round_events :: "toast_thread \<Rightarrow> real \<Rightarrow> event list" where
  "quiet_round_events t x =
     [(L160, TimeTime, Now x)] @ [(L165, TimeSleep (1 / 10), Returned)] @ loop_test_events t
     @ [(L131, HasAnyInput, Answer False), (L136, TimeTime, Now x),
        (L138, ReadToggle, Answer False)]"

subsection \<open>Concrete runs\<close>

text \<open>
  A run of \<open>sd_toast\<close> that is shown and times out: the clock reads 0 at the start, 2
  when the toast is painted and 6 at the first duration check; the lock answers that it
  is locked when the \<^verbatim>\<open>finally\<close> block asks.
\<close>

definition timed_out_inputs :: "inp list" where
  "timed_out_inputs =
     [at_time 0, ok, ok, ok, answer False, at_time 2, ok, snapshot 7, ok, at_time 6,
      answer True, ok, ok]"

definition timed_out_trace :: "event list" where
  "timed_out_trace =
     [(L119, TimeTime, Now 0), (L123, TimeSleep 2, Returned), (L128, LockAcquire, Returned),
      (L130, ReadKeepRunning, Answer True), (L131, HasAnyInput, Answer False),
      (L136, TimeTime, Now 2), (L138, ReadToggle, Answer False),
      (L155, CanvasCopy, Snapshot 7), (L157, ToastRender, Returned), (L160, TimeTime, Now 6),
      (L169, LockLocked, Answer True), (L171, ShowImage (Some 7), Returned),
      (L174, LockRelease, Returned)]"

text \<open>
  A run in which the host asks for the lock after the toast is painted and the
  \<^verbatim>\<open>release\<close> of line 142 raises (the lock was already unlocked by someone else); when
  the \<^verbatim>\<open>finally\<close> block asks, another thread holds the lock.
\<close>

definition failed_yield_inputs :: "inp list" where
  "failed_yield_inputs =
     [at_time 0, ok, ok, ok, answer False, at_time 2, ok, snapshot 7, ok, at_time 2,
      yield_request, ok, answer False, at_time 2, ok, ok, raising,
      answer True, ok, ok]"

definition failed_yield_trace :: "event list" where
  "failed_yield_trace =
     [(L119, TimeTime, Now 0), (L123, TimeSleep 2, Returned), (L128, LockAcquire, Returned),
      (L130, ReadKeepRunning, Answer True), (L131, HasAnyInput, Answer False),
      (L136, TimeTime, Now 2), (L138, ReadToggle, Answer False),
      (L155, CanvasCopy, Snapshot 7), (L157, ToastRender, Returned), (L160, TimeTime, Now 2),
      (L165, TimeSleep (1 / 10), Returned),
      (L130, ReadKeepRunning, Answer True), (L131, HasAnyInput, Answer False),
      (L136, TimeTime, Now 2), (L138, ReadToggle, Answer True),
      (L141, ClearToggle, Returned), (L142, LockRelease, Raised),
      (L169, LockLocked, Answer True), (L171, ShowImage (Some 7), Returned),
      (L174, LockRelease, Returned)]"

text \<open>
  A run in which the \<^verbatim>\<open>acquire\<close> of line 128 raises: the thread never held the lock,
  and \<^verbatim>\<open>has_rendered\<close> is false when the \<^verbatim>\<open>finally\<close> block is entered.
\<close>

definition failed_acquire_inputs :: "inp list" where
  "failed_acquire_inputs = [at_time 0, ok, raising, ok]"

definition failed_acquire_trace :: "event list" where
  "failed_acquire_trace =
     [(L119, TimeTime, Now 0), (L123, TimeSleep 2, Returned), (L128, LockAcquire, Raised),
      (L174, LockRelease, Returned)]"

text \<open>
  A run in which the host, during the poll sleep of line 165, both asks for the lock and
  requests a stop.
\<close>

definition stopped_yield_inputs :: "inp list" where
  "stopped_yield_inputs =
     [at_time 0, ok, ok, ok, answer False, at_time 2, ok, snapshot 7, ok, at_time 2,
      stop_and_yield_request, ok, answer True, ok, ok]"

definition stopped_yield_trace :: "event list" where
  "stopped_yield_trace =
     [(L119, TimeTime, Now 0), (L123, TimeSleep 2, Returned), (L128, LockAcquire, Returned),
      (L130, ReadKeepRunning, Answer True), (L131, HasAnyInput, Answer False),
      (L136, TimeTime, Now 2), (L138, ReadToggle, Answer False),
      (L155, CanvasCopy, Snapshot 7), (L157, ToastRender, Returned), (L160, TimeTime, Now 2),
      (L165, TimeSleep (1 / 10), Returned), (L130, ReadKeepRunning, Answer False),
      (L169, LockLocked, Answer True), (L171, ShowImage (Some 7), Returned),
      (L174, LockRelease, Returned)]"

subsection \<open>Properties of traces\<close>

text \<open>
  Whether the thread holds the renderer's lock after a trace, by its own calls: it holds
  the lock from an \<^verbatim>\<open>acquire\<close> that returned until its next \<^verbatim>\<open>release\<close>. (A
  \<^verbatim>\<open>release\<close> that raises found the lock unlocked.) This is the thread's side of the
  convention of the class docstring; what other threads do to the lock is not part of it.
\<close>

definition lock_update :: "bool \<Rightarrow> event \<Rightarrow> bool" where
  "lock_update h e =
     (case e of (l, c, r) \<Rightarrow>
        if c = LockAcquire \<and> r = Returned then True
        else if c = LockRelease then False
        else h)"

definition holds_lock :: "event list \<Rightarrow> bool" where
  "holds_lock tr = foldl lock_update False tr"

definition paint_safe :: "event list \<Rightarrow> bool" where
  "paint_safe tr =
     (\<forall>pre l c r post. tr = pre @ (l, c, r) # post \<and> (c = CanvasCopy \<or> c = ToastRender)
        \<longrightarrow> holds_lock pre)"

text \<open>The lines at which the thread holds the lock, and the invariant that says so.\<close>

definition holding :: "label \<Rightarrow> bool" where
  "holding l = (l \<in> set [L130, L198, L131, L136, L138, L141, L142, L155, L157, L160, L165])"

definition lock_inv :: "run_state \<Rightarrow> event list \<Rightarrow> bool" where
  "lock_inv s tr =
     (paint_safe tr \<and> (holding (pc s) \<longrightarrow> holds_lock tr)
      \<and> (has_rendered s = Some True \<longrightarrow> (L157, ToastRender, Returned) \<in> set tr)
      \<and> (pc s \<in> set [L155, L157] \<longrightarrow> has_rendered s = Some False))"

text \<open>
  The events of the \<^verbatim>\<open>finally\<close> block (lines 169, 171 and 174), and the split of a
  trace at the first of them: the events of the \<^verbatim>\<open>try\<close> body, and the events of the
  cleanup.
\<close>

definition in_finally :: "event \<Rightarrow> bool" where
  "in_finally e = (fst e \<in> set [L169, L171, L174])"

definition body_of :: "event list \<Rightarrow> event list" where
  "body_of tr = takeWhile (\<lambda>e. \<not> in_finally e) tr"

definition cleanup_of :: "event list \<Rightarrow> event list" where
  "cleanup_of tr = dropWhile (\<lambda>e. \<not> in_finally e) tr"

text \<open>
  The traces of a finished cleanup, by the value of \<^verbatim>\<open>has_rendered\<close> when the block is
  entered, and the invariant that relates the program counter to the cleanup events so
  far.
\<close>

definition cleanup_done :: "run_state \<Rightarrow> event list \<Rightarrow> bool" where
  "cleanup_done s cl =
     (case has_rendered s of
        None \<Rightarrow> cl = []
      | Some False \<Rightarrow> cl = [(L174, LockRelease, Returned)] \<or> cl = [(L174, LockRelease, Raised)]
      | Some True \<Rightarrow>
          cl = [(L169, LockLocked, Raised)]
          \<or> cl = [(L169, LockLocked, Answer False), (L174, LockRelease, Returned)]
          \<or> cl = [(L169, LockLocked, Answer False), (L174, LockRelease, Raised)]
          \<or> cl = [(L169, LockLocked, Answer True),
                   (L171, ShowImage (previous_screen_state s), Raised)]
          \<or> cl = [(L169, LockLocked, Answer True),
                   (L171, ShowImage (previous_screen_state s), Returned),
                   (L174, LockRelease, Returned)]
          \<or> cl = [(L169, LockLocked, Answer True),
                   (L171, ShowImage (previous_screen_state s), Returned),
                   (L174, LockRelease, Raised)])"

definition cleanup_inv :: "run_state \<Rightarrow> event list \<Rightarrow> bool" where
  "cleanup_inv s tr =
     ((has_rendered s = None \<longrightarrow>
         (pc s = L119 \<or> pc s = Exited) \<and> \<not> holds_lock (body_of tr))
      \<and> (pc s = L157 \<or> has_rendered s = Some True \<longrightarrow>
           (\<exists>f. previous_screen_state s = Some f \<and> (L155, CanvasCopy, Snapshot f) \<in> set tr))
      \<and> (case pc s of
           L169 \<Rightarrow> cleanup_of tr = [] \<and> has_rendered s = Some True
         | L171 \<Rightarrow> cleanup_of tr = [(L169, LockLocked, Answer True)] \<and> has_rendered s = Some True
         | L174 \<Rightarrow>
             (has_rendered s = Some False \<and> cleanup_of tr = [])
             \<or> (has_rendered s = Some True \<and>
                  (cleanup_of tr = [(L169, LockLocked, Answer False)]
                   \<or> cleanup_of tr = [(L169, LockLocked, Answer True),
                                      (L171, ShowImage (previous_screen_state s), Returned)]))
         | Exited \<Rightarrow> cleanup_done s (cleanup_of tr)
         | _ \<Rightarrow> cleanup_of tr = []))"

text \<open>
  The events at which control leaves the \<^verbatim>\<open>try\<close> body of \<^verbatim>\<open>run\<close>: a call that raises;
  the loop test of line 130 when \<^verbatim>\<open>keep_running\<close> is read false or
  \<^verbatim>\<open>should_keep_running\<close> (line 198 for the variant that overrides it) answers false;
  the \<^verbatim>\<open>break\<close> after \<^verbatim>\<open>has_any_input\<close> answers true at line 131; and the
  \<^verbatim>\<open>break\<close> of line 160 when the clock reads more than \<^verbatim>\<open>activation_delay + duration\<close>
  after \<^verbatim>\<open>start\<close>. The first argument is that sum, the second the value of \<^verbatim>\<open>start\<close>.
\<close>

definition leaves_body :: "real \<Rightarrow> real option \<Rightarrow> event \<Rightarrow> bool" where
  "leaves_body d st e =
     (case e of (l, c, r) \<Rightarrow>
        (case r of
           Raised \<Rightarrow> True
         | Answer b \<Rightarrow> (l = L130 \<and> \<not> b) \<or> (l = L198 \<and> \<not> b) \<or> (l = L131 \<and> b)
         | Now x \<Rightarrow> l = L160 \<and> (case st of None \<Rightarrow> False | Some t0 \<Rightarrow> x - t0 > d)
         | _ \<Rightarrow> False))"

text \<open>
  The program counters inside or after the \<^verbatim>\<open>finally\<close> block, and the invariants that
  relate them to the trace: outside the block no event so far leaves the body and there is
  no cleanup event; inside or after it, the last event of the body is the one at which the
  body was left, and no earlier one is.
\<close>

definition in_block :: "label \<Rightarrow> bool" where
  "in_block l = (l \<in> set [L169, L171, L174, Exited])"

definition state_inv :: "toast_thread \<Rightarrow> run_state \<Rightarrow> bool" where
  "state_inv t s =
     (activation_delay (self s) = activation_delay t \<and> duration (self s) = duration t
      \<and> (has_rendered s \<noteq> None \<longrightarrow> start s \<noteq> None)
      \<and> (pc s \<noteq> L119 \<and> pc s \<noteq> Exited \<longrightarrow> has_rendered s \<noteq> None)
      \<and> (pc s = L160 \<longrightarrow> has_rendered s = Some True))"

definition trace_inv :: "toast_thread \<Rightarrow> run_state \<Rightarrow> event list \<Rightarrow> bool" where
  "trace_inv t s tr =
     (state_inv t s
      \<and> (pc s = L119 \<longrightarrow> tr = [])
      \<and> (in_block (pc s) \<longrightarrow>
            body_of tr \<noteq> []
            \<and> leaves_body (activation_delay t + duration t) (start s) (last (body_of tr))
            \<and> (\<forall>e\<in>set (butlast (body_of tr)).
                  \<not> leaves_body (activation_delay t + duration t) (start s) e))
      \<and> (\<not> in_block (pc s) \<longrightarrow>
            cleanup_of tr = []
            \<and> (\<forall>e\<in>set tr. \<not> leaves_body (activation_delay t + duration t) (start s) e)))"

section \<open>Lemmas about the step function\<close>

lemma host_fields [simp]:
  "pc (host i s) = pc s"
  "has_rendered (host i s) = has_rendered s"
  "start (host i s) = start s"
  "previous_screen_state (host i s) = previous_screen_state s"
  "raised (host i s) = raised s"
  "activation_delay (self (host i s)) = activation_delay (self s)"
  "duration (self (host i s)) = duration (self s)"
  "variant_of (self (host i s)) = variant_of (self s)"
  "keep_running (host i s) = (keep_running s \<and> \<not> stop_req i)"
  "toggle_renderer_lock_flag (self (host i s)) =
     (toggle_renderer_lock_flag (self s) \<or> yield_req i)"
  by (simp_all add: host_def request_stop_def toggle_renderer_lock_def)

lemma host_inputs [simp]:
  "host ok s = s" "host (answer b) s = s" "host (at_time x) s = s" "host (snapshot f) s = s"
  "host raising s = s"
  "host stop_request s = request_stop s"
  "host yield_request s = toggle_renderer_lock s"
  "host stop_and_yield_request s = toggle_renderer_lock (request_stop s)"
  by (simp_all add: host_def ok_def answer_def at_time_def snapshot_def raising_def
      stop_request_def yield_request_def stop_and_yield_request_def)

lemma input_fields [simp]:
  "raises ok = False" "raises (answer b) = False" "raises (at_time x) = False"
  "raises (snapshot f) = False" "raises raising = True"
  "raises stop_request = False" "raises yield_request = False"
  "raises stop_and_yield_request = False"
  "flag (answer b) = b" "clock (at_time x) = x" "canvas (snapshot f) = f"
  "stop_req stop_request" "yield_req yield_request"
  "stop_req ok = False" "yield_req ok = False"
  "stop_req (answer b) = False" "yield_req (answer b) = False"
  "stop_req (at_time x) = False" "yield_req (at_time x) = False"
  "stop_req (snapshot f) = False" "yield_req (snapshot f) = False"
  "stop_req yield_request = False" "flag yield_request = False"
  by (simp_all add: ok_def answer_def at_time_def snapshot_def raising_def
      stop_request_def yield_request_def stop_and_yield_request_def)

lemma request_fields [simp]:
  "pc (request_stop s) = pc s"
  "has_rendered (request_stop s) = has_rendered s"
  "start (request_stop s) = start s"
  "previous_screen_state (request_stop s) = previous_screen_state s"
  "raised (request_stop s) = raised s"
  "self (request_stop s) = self s"
  "keep_running (request_stop s) = False"
  "pc (toggle_renderer_lock s) = pc s"
  "has_rendered (toggle_renderer_lock s) = has_rendered s"
  "start (toggle_renderer_lock s) = start s"
  "previous_screen_state (toggle_renderer_lock s) = previous_screen_state s"
  "raised (toggle_renderer_lock s) = raised s"
  "keep_running (toggle_renderer_lock s) = keep_running s"
  "self (toggle_renderer_lock s) = (self s)\<lparr>toggle_renderer_lock_flag := True\<rparr>"
  by (simp_all add: request_stop_def toggle_renderer_lock_def)

lemma enter_finally_fields [simp]:
  "pc (enter_finally s) =
     (case has_rendered s of None \<Rightarrow> Exited | Some True \<Rightarrow> L169 | Some False \<Rightarrow> L174)"
  "has_rendered (enter_finally s) = has_rendered s"
  "start (enter_finally s) = start s"
  "previous_screen_state (enter_finally s) = previous_screen_state s"
  "self (enter_finally s) = self s"
  "keep_running (enter_finally s) = keep_running s"
  by (simp_all add: enter_finally_def split: option.splits bool.splits)

lemma fault_fields [simp]:
  "pc (fault s) =
     (case has_rendered s of None \<Rightarrow> Exited | Some True \<Rightarrow> L169 | Some False \<Rightarrow> L174)"
  "has_rendered (fault s) = has_rendered s"
  "start (fault s) = start s"
  "previous_screen_state (fault s) = previous_screen_state s"
  "self (fault s) = self s"
  "keep_running (fault s) = keep_running s"
  by (simp_all add: fault_def)

lemma abort_fields [simp]:
  "pc (abort s) = Exited"
  "has_rendered (abort s) = has_rendered s"
  "start (abort s) = start s"
  "previous_screen_state (abort s) = previous_screen_state s"
  "self (abort s) = self s"
  "keep_running (abort s) = keep_running s"
  by (simp_all add: abort_def)

lemma line_154_fields [simp]:
  "pc (line_154 s) =
     (case has_rendered s of None \<Rightarrow> Exited | Some True \<Rightarrow> L160 | Some False \<Rightarrow> L155)"
  "has_rendered (line_154 s) = has_rendered s"
  "start (line_154 s) = start s"
  "previous_screen_state (line_154 s) = previous_screen_state s"
  "self (line_154 s) = self s"
  "keep_running (line_154 s) = keep_running s"
  by (simp_all add: line_154_def split: option.splits bool.splits)

lemma at_line_simps:
  "pc s = L119 \<Longrightarrow> at_line i s =
     try_call L119 TimeTime i (Now (clock i)) s
       (s\<lparr>start := Some (clock i), has_rendered := Some False, previous_screen_state := None,
          pc := (if activation_delay (self s) > 0 then L123 else L128)\<rparr>)"
  "pc s = L123 \<Longrightarrow> at_line i s =
     try_call L123 (TimeSleep (activation_delay (self s))) i Returned s (s\<lparr>pc := L128\<rparr>)"
  "pc s = L128 \<Longrightarrow> at_line i s = try_call L128 LockAcquire i Returned s (s\<lparr>pc := L130\<rparr>)"
  "pc s = L130 \<Longrightarrow> at_line i s =
     (if keep_running s
      then (case variant_of (self s) of
              RemoveSDCardToastManagerThread \<Rightarrow> s\<lparr>pc := L198\<rparr>
            | _ \<Rightarrow> s\<lparr>pc := L131\<rparr>)
      else enter_finally s,
      [(L130, ReadKeepRunning, Answer (keep_running s))])"
  "pc s = L198 \<Longrightarrow> at_line i s =
     try_call L198 MicroSDIsInserted i (Answer (flag i)) s
       (if flag i then s\<lparr>pc := L131\<rparr> else enter_finally s)"
  "pc s = L131 \<Longrightarrow> at_line i s =
     try_call L131 HasAnyInput i (Answer (flag i)) s
       (if flag i then enter_finally s else s\<lparr>pc := L136\<rparr>)"
  "pc s = L136 \<Longrightarrow> at_line i s = try_call L136 TimeTime i (Now (clock i)) s (s\<lparr>pc := L138\<rparr>)"
  "pc s = L138 \<Longrightarrow> at_line i s =
     (if toggle_renderer_lock_flag (self s) then s\<lparr>pc := L141\<rparr> else line_154 s,
      [(L138, ReadToggle, Answer (toggle_renderer_lock_flag (self s)))])"
  "pc s = L141 \<Longrightarrow> at_line i s =
     (s\<lparr>self := (self s)\<lparr>toggle_renderer_lock_flag := False\<rparr>, pc := L142\<rparr>,
      [(L141, ClearToggle, Returned)])"
  "pc s = L142 \<Longrightarrow> at_line i s = try_call L142 LockRelease i Returned s (s\<lparr>pc := L145\<rparr>)"
  "pc s = L145 \<Longrightarrow> at_line i s =
     try_call L145 LockLocked i (Answer (flag i)) s
       (if flag i then s\<lparr>pc := L151\<rparr> else s\<lparr>pc := L147\<rparr>)"
  "pc s = L147 \<Longrightarrow> at_line i s =
     try_call L147 (TimeSleep (1 / 10)) i Returned s (s\<lparr>pc := L145\<rparr>)"
  "pc s = L151 \<Longrightarrow> at_line i s = try_call L151 LockAcquire i Returned s (line_154 s)"
  "pc s = L155 \<Longrightarrow> at_line i s =
     try_call L155 CanvasCopy i (Snapshot (canvas i)) s
       (s\<lparr>previous_screen_state := Some (canvas i), pc := L157\<rparr>)"
  "pc s = L157 \<Longrightarrow> at_line i s =
     try_call L157 ToastRender i Returned s (s\<lparr>has_rendered := Some True, pc := L160\<rparr>)"
  "pc s = L160 \<Longrightarrow> at_line i s =
     try_call L160 TimeTime i (Now (clock i)) s
       (case start s of
          None \<Rightarrow> fault s
        | Some t0 \<Rightarrow>
            if clock i - t0 > activation_delay (self s) + duration (self s)
               \<and> has_rendered s = Some True
            then enter_finally s
            else s\<lparr>pc := L165\<rparr>)"
  "pc s = L165 \<Longrightarrow> at_line i s =
     try_call L165 (TimeSleep (1 / 10)) i Returned s (s\<lparr>pc := L130\<rparr>)"
  "pc s = L169 \<Longrightarrow> at_line i s =
     finally_call L169 LockLocked i (Answer (flag i)) s
       (if flag i then s\<lparr>pc := L171\<rparr> else s\<lparr>pc := L174\<rparr>)"
  "pc s = L171 \<Longrightarrow> at_line i s =
     finally_call L171 (ShowImage (previous_screen_state s)) i Returned s (s\<lparr>pc := L174\<rparr>)"
  "pc s = L174 \<Longrightarrow> at_line i s =
     finally_call L174 LockRelease i Returned s (s\<lparr>pc := Exited\<rparr>)"
  "pc s = Exited \<Longrightarrow> at_line i s = (s, [])"
  by (simp_all add: at_line_def)

lemma step_at:
  "pc s \<noteq> Exited \<Longrightarrow> step i s = at_line i (host i s)"
  "pc s = Exited \<Longrightarrow> step i s = (s, [])"
  by (simp_all add: step_def)

lemma exec_Exited: "pc s = Exited \<Longrightarrow> exec is s = (s, [])"
  by (induction "is") (simp_all add: step_def)

lemma exec_append:
  "exec (xs @ ys) s =
     (case exec xs s of (s1, es1) \<Rightarrow> (case exec ys s1 of (s2, es2) \<Rightarrow> (s2, es1 @ es2)))"
  by (induction xs arbitrary: s) (simp_all split: prod.splits)

text \<open>
  An invariant of the state and the trace so far that every step preserves holds along
  every run.
\<close>

lemma exec_invariant:
  assumes stepI: "\<And>i s tr s' es. I s tr \<Longrightarrow> step i s = (s', es) \<Longrightarrow> I s' (tr @ es)"
  shows "I s tr \<Longrightarrow> exec is s = (s', es) \<Longrightarrow> I s' (tr @ es)"
proof (induction "is" arbitrary: s tr es)
  case Nil
  then show ?case by simp
next
  case (Cons i "is")
  obtain s1 es1 where st: "step i s = (s1, es1)" by (cases "step i s")
  obtain s2 es2 where ex: "exec is s1 = (s2, es2)" by (cases "exec is s1")
  from Cons.prems(2) st ex have eq: "s2 = s'" "es = es1 @ es2" by simp_all
  have "I s1 (tr @ es1)" using stepI [OF Cons.prems(1) st] .
  from Cons.IH [OF this ex [unfolded eq(1)]] show ?case using eq by simp
qed

lemma holds_lock_snoc: "holds_lock (tr @ [e]) = lock_update (holds_lock tr) e"
  by (simp add: holds_lock_def)

lemma paint_safe_snoc:
  "paint_safe (tr @ [(l, c, r)]) =
     (paint_safe tr \<and> ((c = CanvasCopy \<or> c = ToastRender) \<longrightarrow> holds_lock tr))"
proof
  assume a: "paint_safe (tr @ [(l, c, r)])"
  have "paint_safe tr"
    unfolding paint_safe_def
  proof (intro allI impI)
    fix pre l' c' r' post
    assume "tr = pre @ (l', c', r') # post \<and> (c' = CanvasCopy \<or> c' = ToastRender)"
    then have "tr @ [(l, c, r)] = pre @ (l', c', r') # (post @ [(l, c, r)])"
      and "c' = CanvasCopy \<or> c' = ToastRender" by simp_all
    with a show "holds_lock pre" unfolding paint_safe_def by blast
  qed
  moreover have "(c = CanvasCopy \<or> c = ToastRender) \<longrightarrow> holds_lock tr"
    using a unfolding paint_safe_def by blast
  ultimately show "paint_safe tr \<and> ((c = CanvasCopy \<or> c = ToastRender) \<longrightarrow> holds_lock tr)" ..
next
  assume a: "paint_safe tr \<and> ((c = CanvasCopy \<or> c = ToastRender) \<longrightarrow> holds_lock tr)"
  show "paint_safe (tr @ [(l, c, r)])"
    unfolding paint_safe_def
  proof (intro allI impI)
    fix pre l' c' r' post
    assume h: "tr @ [(l, c, r)] = pre @ (l', c', r') # post
                 \<and> (c' = CanvasCopy \<or> c' = ToastRender)"
    show "holds_lock pre"
    proof (cases post rule: rev_cases)
      case Nil
      with h have "pre = tr" "c' = c" by simp_all
      with h a show ?thesis by blast
    next
      case (snoc post' x)
      with h have "tr = pre @ (l', c', r') # post'" by simp
      with h a show ?thesis unfolding paint_safe_def by blast
    qed
  qed
qed

lemma lock_inv_step:
  assumes "lock_inv s tr" "step i s = (s', es)"
  shows "lock_inv s' (tr @ es)"
  using assms
  by (cases "pc s";
      auto simp: step_at at_line_simps try_call_def finally_call_def lock_inv_def holding_def
        paint_safe_snoc holds_lock_snoc lock_update_def
        split: if_splits option.splits bool.splits variant.splits)

lemma lock_inv_started: "lock_inv (started t) []"
  by (simp add: lock_inv_def started_def paint_safe_def holding_def)

lemma cleanup_of_snoc:
  "cleanup_of (tr @ [e]) =
     (if cleanup_of tr = [] then (if in_finally e then [e] else []) else cleanup_of tr @ [e])"
  by (auto simp: cleanup_of_def dropWhile_append dropWhile_eq_Nil_conv)

lemma takeWhile_all: "\<forall>x\<in>set xs. P x \<Longrightarrow> takeWhile P xs = xs"
  by (simp add: takeWhile_eq_all_conv)

lemma body_of_snoc:
  "body_of (tr @ [e]) = (if cleanup_of tr = [] \<and> \<not> in_finally e then tr @ [e] else body_of tr)"
  by (simp add: cleanup_of_def body_of_def takeWhile_append dropWhile_eq_Nil_conv
      takeWhile_all)

lemma body_of_no_cleanup: "cleanup_of tr = [] \<Longrightarrow> body_of tr = tr"
  by (simp add: cleanup_of_def body_of_def dropWhile_eq_Nil_conv)

lemma body_cleanup: "body_of tr @ cleanup_of tr = tr"
  by (simp add: cleanup_of_def body_of_def)

lemma in_finally_simps [simp]:
  "in_finally (L169, c, r)" "in_finally (L171, c, r)" "in_finally (L174, c, r)"
  "\<not> in_finally (L119, c, r)" "\<not> in_finally (L123, c, r)" "\<not> in_finally (L128, c, r)"
  "\<not> in_finally (L130, c, r)" "\<not> in_finally (L198, c, r)" "\<not> in_finally (L131, c, r)"
  "\<not> in_finally (L136, c, r)" "\<not> in_finally (L138, c, r)" "\<not> in_finally (L141, c, r)"
  "\<not> in_finally (L142, c, r)" "\<not> in_finally (L145, c, r)" "\<not> in_finally (L147, c, r)"
  "\<not> in_finally (L151, c, r)" "\<not> in_finally (L155, c, r)" "\<not> in_finally (L157, c, r)"
  "\<not> in_finally (L160, c, r)" "\<not> in_finally (L165, c, r)"
  by (simp_all add: in_finally_def)

lemma cleanup_inv_step:
  assumes "cleanup_inv s tr" "step i s = (s', es)"
  shows "cleanup_inv s' (tr @ es)"
  using assms
  by (cases "pc s";
      auto simp: step_at at_line_simps try_call_def finally_call_def cleanup_inv_def
        cleanup_done_def cleanup_of_snoc body_of_snoc body_of_no_cleanup holds_lock_snoc
        lock_update_def
        split: if_splits option.splits bool.splits variant.splits)

lemma cleanup_inv_started: "cleanup_inv (started t) []"
  by (simp add: cleanup_inv_def started_def cleanup_of_def body_of_def holds_lock_def)


lemma cleanup_inv_run:
  assumes "run t is = (s, tr)"
  shows "cleanup_inv s tr"
proof -
  have "cleanup_inv s ([] @ tr)"
  proof (rule exec_invariant [where I = cleanup_inv])
    show "cleanup_inv (started t) []" by (rule cleanup_inv_started)
    show "exec is (started t) = (s, tr)" using assms by (simp add: run_def)
  qed (rule cleanup_inv_step)
  then show ?thesis by simp
qed

lemma body_of_clean: "\<forall>e\<in>set (body_of tr). \<not> in_finally e"
  using set_takeWhileD [of _ "\<lambda>e. \<not> in_finally e" tr] by (auto simp: body_of_def)

lemma capture_in_body:
  assumes "(L155, c, r) \<in> set tr" "\<forall>e\<in>set (cleanup_of tr). in_finally e"
  shows "(L155, c, r) \<in> set (body_of tr)"
proof -
  have "set tr = set (body_of tr) \<union> set (cleanup_of tr)"
    using body_cleanup [of tr] by (metis set_append)
  with assms show ?thesis by auto
qed

lemma release_once_after_line_120:
  assumes "run t is = (s, tr)" and "pc s = Exited" and "has_rendered s \<noteq> None"
    and "\<forall>e\<in>set (cleanup_of tr). fst e \<noteq> L174 \<longrightarrow> snd (snd e) \<noteq> Raised"
  shows "\<exists>r. filter (\<lambda>e. fst e = L174) tr = [(L174, LockRelease, r)]"
proof -
  have inv: "cleanup_inv s tr" using assms(1) by (rule cleanup_inv_run)
  have shp: "cleanup_done s (cleanup_of tr)"
    using inv assms(2) by (simp add: cleanup_inv_def)
  have "filter (\<lambda>e. fst e = L174) (body_of tr) = []"
    using body_of_clean [of tr] by (auto simp: filter_empty_conv in_finally_def)
  then have "filter (\<lambda>e. fst e = L174) tr = filter (\<lambda>e. fst e = L174) (cleanup_of tr)"
    using body_cleanup [of tr] by (metis append_Nil filter_append)
  then show ?thesis
    using shp assms(3,4) by (auto simp: cleanup_done_def split: option.splits bool.splits)
qed

text \<open>Once entered, the \<^verbatim>\<open>finally\<close> block ends within three calls.\<close>

lemma finally_block_ends:
  assumes "pc s = L169 \<or> pc s = L171 \<or> pc s = L174"
  shows "pc (fst (exec [i1, i2, i3] s)) = Exited"
  using assms
  by (auto simp: step_def at_line_simps finally_call_def split: prod.splits if_splits)

lemmas eval_simps = run_def started_def step_at at_line_simps try_call_def finally_call_def
  enter_finally_def fault_def abort_def line_154_def holds_lock_def lock_update_def

lemma timed_out_run:
  "run sd_toast timed_out_inputs =
     ((started sd_toast)
        \<lparr>previous_screen_state := Some 7, start := Some 0, has_rendered := Some True,
          pc := Exited\<rparr>,
      timed_out_trace)"
  by (simp add: timed_out_inputs_def timed_out_trace_def eval_simps sd_toast_def)

lemma failed_yield_run:
  "run sd_toast failed_yield_inputs =
     ((started sd_toast)
        \<lparr>previous_screen_state := Some 7, start := Some 0, has_rendered := Some True,
          raised := True, pc := Exited\<rparr>,
      failed_yield_trace)"
  by (simp add: failed_yield_inputs_def failed_yield_trace_def eval_simps sd_toast_def
      toggle_renderer_lock_def)

lemma timed_out_split:
  "body_of timed_out_trace = take 10 timed_out_trace"
  "cleanup_of timed_out_trace = drop 10 timed_out_trace"
  by (simp_all add: body_of_def cleanup_of_def timed_out_trace_def)

lemma failed_yield_split:
  "body_of failed_yield_trace = take 17 failed_yield_trace"
  "cleanup_of failed_yield_trace = drop 17 failed_yield_trace"
  by (simp_all add: body_of_def cleanup_of_def failed_yield_trace_def)

lemma exec_append_eq:
  "exec xs s = (s1, es1) \<Longrightarrow> exec ys s1 = (s2, es2) \<Longrightarrow> exec (xs @ ys) s = (s2, es1 @ es2)"
  by (simp add: exec_append)

lemma pc_same: "pc s = l \<Longrightarrow> s\<lparr>pc := l\<rparr> = s"
  by auto

lemma exec_wait: "pc s = L145 \<Longrightarrow> exec (wait_inputs k) s = (s, wait_events k)"
proof (induction k)
  case 0
  then show ?case by (simp add: wait_inputs_def wait_events_def)
next
  case (Suc k)
  have st: "exec [answer False, ok] s =
              (s, [(L145, LockLocked, Answer False), (L147, TimeSleep (1 / 10), Returned)])"
    using Suc.prems by (simp add: step_at at_line_simps try_call_def pc_same)
  have wi: "wait_inputs (Suc k) = [answer False, ok] @ wait_inputs k"
    and we: "wait_events (Suc k) =
               [(L145, LockLocked, Answer False), (L147, TimeSleep (1 / 10), Returned)]
               @ wait_events k"
    by (simp_all add: wait_inputs_def wait_events_def)
  show ?case
    unfolding wi we by (rule exec_append_eq [OF st Suc.IH [OF Suc.prems]])
qed

lemma exec_yield_154:
  assumes "pc s = L141"
  shows "exec (yield_inputs k) s =
           (line_154 (s\<lparr>self := (self s)\<lparr>toggle_renderer_lock_flag := False\<rparr>, pc := L151\<rparr>),
            yield_events k)"
proof -
  let ?s1 = "s\<lparr>self := (self s)\<lparr>toggle_renderer_lock_flag := False\<rparr>, pc := L145\<rparr>"
  have a: "exec [ok, ok] s = (?s1, [(L141, ClearToggle, Returned), (L142, LockRelease, Returned)])"
    using assms by (simp add: step_at at_line_simps try_call_def)
  have b: "exec (wait_inputs k) ?s1 = (?s1, wait_events k)"
    by (rule exec_wait) simp
  have c: "exec [answer True, ok] ?s1 =
             (line_154 (s\<lparr>self := (self s)\<lparr>toggle_renderer_lock_flag := False\<rparr>, pc := L151\<rparr>),
              [(L145, LockLocked, Answer True), (L151, LockAcquire, Returned)])"
    using assms by (simp add: step_at at_line_simps try_call_def)
  show ?thesis
    unfolding yield_inputs_def yield_events_def
    by (rule exec_append_eq [OF a exec_append_eq [OF b c]])
qed

lemma exec_loop_test:
  assumes "pc s = L130" "keep_running s"
  shows "exec (loop_test_inputs (self s)) s = (s\<lparr>pc := L131\<rparr>, loop_test_events (self s))"
  using assms
  by (cases "variant_of (self s)")
     (simp_all add: loop_test_inputs_def loop_test_events_def step_at at_line_simps try_call_def)

lemma exec_input_and_toggle:
  assumes "pc s = L131"
  shows "exec [answer False, at_time u, ok] s =
           (if toggle_renderer_lock_flag (self s) then s\<lparr>pc := L141\<rparr>
            else line_154 (s\<lparr>pc := L138\<rparr>),
            [(L131, HasAnyInput, Answer False), (L136, TimeTime, Now u),
             (L138, ReadToggle, Answer (toggle_renderer_lock_flag (self s)))])"
  using assms by (simp add: step_at at_line_simps try_call_def)

lemma exec_paint:
  assumes "pc s = L155"
  shows "exec [snapshot f, ok] s =
           (s\<lparr>previous_screen_state := Some f, has_rendered := Some True, pc := L160\<rparr>,
            [(L155, CanvasCopy, Snapshot f), (L157, ToastRender, Returned)])"
  using assms by (simp add: step_at at_line_simps try_call_def)

lemma exec_duration_check:
  assumes "pc s = L160"
  shows "exec [at_time x] s =
           (case start s of
              None \<Rightarrow> fault s
            | Some t0 \<Rightarrow>
                if x - t0 > activation_delay (self s) + duration (self s)
                   \<and> has_rendered s = Some True
                then enter_finally s
                else s\<lparr>pc := L165\<rparr>,
            [(L160, TimeTime, Now x)])"
  using assms by (simp add: step_at at_line_simps try_call_def split: option.splits)

lemma exec_poll_sleep:
  assumes "pc s = L165"
  shows "exec [ok] s = (s\<lparr>pc := L130\<rparr>, [(L165, TimeSleep (1 / 10), Returned)])"
  using assms by (simp add: step_at at_line_simps try_call_def)

lemmas segment_simps = exec_append exec_loop_test exec_input_and_toggle exec_yield_154
  exec_paint exec_duration_check exec_poll_sleep

lemma exec_prologue:
  "exec (prologue_inputs t t0) (started t) =
     ((started t)\<lparr>start := Some t0, has_rendered := Some False, pc := L130\<rparr>,
      prologue_events t t0)"
  by (simp add: prologue_inputs_def prologue_events_def started_def step_at at_line_simps
      try_call_def)

lemma exec_quiet_round:
  assumes "pc s = L160" "has_rendered s = Some True" "start s = Some t0" "keep_running s"
    and "\<not> toggle_renderer_lock_flag (self s)"
    and "x - t0 \<le> activation_delay (self s) + duration (self s)"
  shows "exec (quiet_round_inputs (self s) x) s = (s, quiet_round_events (self s) x)"
proof -
  have e1: "exec [at_time x] s = (s\<lparr>pc := L165\<rparr>, [(L160, TimeTime, Now x)])"
    using exec_duration_check [of s x] assms by simp
  have e2: "exec [ok] (s\<lparr>pc := L165\<rparr>) = (s\<lparr>pc := L130\<rparr>, [(L165, TimeSleep (1 / 10), Returned)])"
    using exec_poll_sleep [of "s\<lparr>pc := L165\<rparr>"] by simp
  have e3: "exec (loop_test_inputs (self s)) (s\<lparr>pc := L130\<rparr>)
              = (s\<lparr>pc := L131\<rparr>, loop_test_events (self s))"
    using exec_loop_test [of "s\<lparr>pc := L130\<rparr>"] assms by simp
  have e4: "exec [answer False, at_time x, ok] (s\<lparr>pc := L131\<rparr>) =
              (s, [(L131, HasAnyInput, Answer False), (L136, TimeTime, Now x),
                   (L138, ReadToggle, Answer False)])"
    using exec_input_and_toggle [of "s\<lparr>pc := L131\<rparr>" x] assms
    by (simp add: line_154_def pc_same)
  show ?thesis
    unfolding quiet_round_inputs_def quiet_round_events_def
    by (rule exec_append_eq [OF e1 exec_append_eq [OF e2 exec_append_eq [OF e3 e4]]])
qed

lemma exec_quiet_rounds:
  assumes "pc s = L160" "has_rendered s = Some True" "start s = Some t0" "keep_running s"
    and "\<not> toggle_renderer_lock_flag (self s)"
    and "\<forall>x\<in>set xs. x - t0 \<le> activation_delay (self s) + duration (self s)"
  shows "exec (concat (map (quiet_round_inputs (self s)) xs)) s
           = (s, concat (map (quiet_round_events (self s)) xs))"
  using assms(6)
proof (induction xs)
  case Nil
  then show ?case by simp
next
  case (Cons x xs)
  have r: "exec (quiet_round_inputs (self s) x) s = (s, quiet_round_events (self s) x)"
    using exec_quiet_round [OF assms(1-5)] Cons.prems by simp
  have "exec (concat (map (quiet_round_inputs (self s)) xs)) s
           = (s, concat (map (quiet_round_events (self s)) xs))"
    using Cons by simp
  from exec_append_eq [OF r this] show ?case by simp
qed


lemma exec_cons_eq:
  "step i s = (s1, es1) \<Longrightarrow> exec is s1 = (s2, es2) \<Longrightarrow> exec (i # is) s = (s2, es1 @ es2)"
  by simp

lemma at_loop_test_fields [simp]:
  "pc (at_loop_test t kr) = L130"
  "has_rendered (at_loop_test t kr) = Some False"
  "start (at_loop_test t kr) = Some 0"
  "keep_running (at_loop_test t kr) = kr"
  "self (at_loop_test t kr) = t"
  by (simp_all add: at_loop_test_def started_def)

lemma example_thread_fields [simp]:
  "variant_of remove_toast = RemoveSDCardToastManagerThread"
  "toggle_renderer_lock_flag remove_toast = False"
  "activation_delay remove_toast = 3"
  "duration remove_toast = 1000000"
  by (simp_all add: remove_toast_def)

subsection \<open>How the body is left\<close>

lemma leaves_body_simps [simp]:
  "leaves_body d st (l, c, Raised)"
  "leaves_body d st (l, c, Answer b) = ((l = L130 \<and> \<not> b) \<or> (l = L198 \<and> \<not> b) \<or> (l = L131 \<and> b))"
  "leaves_body d st (l, c, Now x) = (l = L160 \<and> (case st of None \<Rightarrow> False | Some t0 \<Rightarrow> x - t0 > d))"
  "\<not> leaves_body d st (l, c, Returned)"
  "\<not> leaves_body d st (l, c, Snapshot f)"
  by (simp_all add: leaves_body_def)

lemma state_inv_step:
  assumes "state_inv t s" "step i s = (s', es)"
  shows "state_inv t s'"
  using assms
  by (cases "pc s";
      auto simp: step_at at_line_simps try_call_def finally_call_def state_inv_def
        split: if_splits option.splits bool.splits variant.splits)

lemma step_from_body:
  assumes "state_inv t s" "\<not> in_block (pc s)" "step i s = (s', es)"
  shows "\<exists>e. es = [e] \<and> \<not> in_finally e \<and> pc s' \<noteq> L119
              \<and> in_block (pc s') = leaves_body (activation_delay t + duration t) (start s') e
              \<and> (pc s \<noteq> L119 \<longrightarrow> start s' = start s)"
  using assms
  by (cases "pc s";
      auto simp: step_at at_line_simps try_call_def state_inv_def in_block_def
        split: if_splits option.splits bool.splits variant.splits)

lemma step_in_block:
  assumes "in_block (pc s)" "pc s \<noteq> Exited" "step i s = (s', es)"
  shows "\<exists>e. es = [e] \<and> in_finally e \<and> in_block (pc s') \<and> start s' = start s"
  using assms
  by (cases "pc s";
      auto simp: step_at at_line_simps finally_call_def in_block_def split: if_splits)

lemma trace_inv_step:
  assumes inv: "trace_inv t s tr" and st: "step i s = (s', es)"
  shows "trace_inv t s' (tr @ es)"
proof -
  let ?d = "activation_delay t + duration t"
  have si: "state_inv t s" using inv by (simp add: trace_inv_def)
  have si': "state_inv t s'" using si st by (rule state_inv_step)
  show ?thesis
  proof (cases "pc s = Exited")
    case True
    then have "s' = s" "es = []" using st by (simp_all add: step_at)
    then show ?thesis using inv by simp
  next
    case False
    show ?thesis
    proof (cases "in_block (pc s)")
      case True
      from step_in_block [OF True False st] obtain e where
        e: "es = [e]" "in_finally e" "in_block (pc s')" "start s' = start s" by blast
      have b: "body_of (tr @ es) = body_of tr"
        using e by (simp add: body_of_snoc)
      have "pc s' \<noteq> L119" using e(3) by (auto simp: in_block_def)
      then show ?thesis
        using inv True e si' b by (simp add: trace_inv_def)
    next
      case nb: False
      from step_from_body [OF si nb st] obtain e where
        e: "es = [e]" "\<not> in_finally e" "pc s' \<noteq> L119"
          "in_block (pc s') = leaves_body ?d (start s') e"
          "pc s \<noteq> L119 \<longrightarrow> start s' = start s" by blast
      have c: "cleanup_of tr = []" and nl: "\<forall>x\<in>set tr. \<not> leaves_body ?d (start s) x"
        using inv nb by (simp_all add: trace_inv_def)
      have nl': "\<forall>x\<in>set tr. \<not> leaves_body ?d (start s') x"
      proof (cases "pc s = L119")
        case True
        then have "tr = []" using inv by (simp add: trace_inv_def)
        then show ?thesis by simp
      next
        case False
        then show ?thesis using nl e(5) by simp
      qed
      have b: "body_of (tr @ es) = tr @ [e]" "cleanup_of (tr @ es) = []"
        using e c by (simp_all add: body_of_snoc cleanup_of_snoc)
      show ?thesis
        using si' e(3,4) nl' b e(1)
        by (auto simp: trace_inv_def)
    qed
  qed
qed

lemma trace_inv_started: "trace_inv t (started t) []"
  by (simp add: trace_inv_def state_inv_def started_def in_block_def cleanup_of_def)

lemma trace_inv_run:
  assumes "run t is = (s, tr)"
  shows "trace_inv t s tr"
proof -
  have "trace_inv t s ([] @ tr)"
  proof (rule exec_invariant [where I = "trace_inv t"])
    show "trace_inv t (started t) []" by (rule trace_inv_started)
    show "exec is (started t) = (s, tr)" using assms by (simp add: run_def)
  qed (rule trace_inv_step)
  then show ?thesis by simp
qed


lemma failed_acquire_run:
  "run sd_toast failed_acquire_inputs =
     ((started sd_toast)
        \<lparr>start := Some 0, has_rendered := Some False, raised := True, pc := Exited\<rparr>,
      failed_acquire_trace)"
  by (simp add: failed_acquire_inputs_def failed_acquire_trace_def eval_simps sd_toast_def)

lemma failed_acquire_split:
  "body_of failed_acquire_trace = take 3 failed_acquire_trace"
  "cleanup_of failed_acquire_trace = drop 3 failed_acquire_trace"
  by (simp_all add: body_of_def cleanup_of_def failed_acquire_trace_def)

lemma timed_out_prefix_run:
  "run sd_toast (take 10 timed_out_inputs) =
     ((started sd_toast)
        \<lparr>previous_screen_state := Some 7, start := Some 0, has_rendered := Some True,
          pc := L169\<rparr>,
      take 10 timed_out_trace)"
  by (simp add: timed_out_inputs_def timed_out_trace_def eval_simps sd_toast_def)

lemma run_append: "run t (is @ js) = (case run t is of (s, tr) \<Rightarrow>
     (case exec js s of (s', tr') \<Rightarrow> (s', tr @ tr')))"
  by (simp add: run_def exec_append)

lemma cleanup_shape:
  assumes "cleanup_done s cl" "has_rendered s \<noteq> None" "\<forall>e\<in>set cl. snd (snd e) \<noteq> Raised"
  shows "\<exists>b. cl =
           (if has_rendered s = Some True
            then (L169, LockLocked, Answer b)
                 # (if b then [(L171, ShowImage (previous_screen_state s), Returned)] else [])
            else [])
           @ [(L174, LockRelease, Returned)]"
proof (cases "has_rendered s = Some True")
  case True
  with assms have
    "cl = [(L169, LockLocked, Answer False), (L174, LockRelease, Returned)]
     \<or> cl = [(L169, LockLocked, Answer True),
              (L171, ShowImage (previous_screen_state s), Returned),
              (L174, LockRelease, Returned)]"
    by (auto simp: cleanup_done_def)
  then show ?thesis
  proof
    assume "cl = [(L169, LockLocked, Answer False), (L174, LockRelease, Returned)]"
    with True show ?thesis by (intro exI [of _ False]) simp
  next
    assume "cl = [(L169, LockLocked, Answer True),
              (L171, ShowImage (previous_screen_state s), Returned),
              (L174, LockRelease, Returned)]"
    with True show ?thesis by (intro exI [of _ True]) simp
  qed
next
  case False
  with assms(2) have f: "has_rendered s = Some False" by (cases "has_rendered s") auto
  with assms have "cl = [(L174, LockRelease, Returned)]"
    by (auto simp: cleanup_done_def)
  with False show ?thesis by simp
qed

lemma cleanup_shape_held:
  assumes "cleanup_done s cl" "has_rendered s \<noteq> None"
    "(L169, LockLocked, Answer False) \<notin> set cl" "\<forall>e\<in>set cl. snd (snd e) \<noteq> Raised"
  shows "cl =
           (if has_rendered s = Some True
            then [(L169, LockLocked, Answer True),
                  (L171, ShowImage (previous_screen_state s), Returned)]
            else [])
           @ [(L174, LockRelease, Returned)]"
proof (cases "has_rendered s = Some True")
  case True
  with assms show ?thesis by (auto simp: cleanup_done_def)
next
  case False
  with assms(2) have f: "has_rendered s = Some False" by (cases "has_rendered s") auto
  with assms show ?thesis by (auto simp: cleanup_done_def)
qed

lemma cleanup_in_finally:
  assumes "cleanup_done s cl"
  shows "\<forall>e\<in>set cl. in_finally e"
  using assms by (auto simp: cleanup_done_def split: option.splits bool.splits)

section \<open>The claims\<close>

subsection \<open>C1: a stop requested during the activation delay\<close>

text \<open>
  C1, as claimed: with \<open>activation_delay = 2\<close> and \<open>duration = 3\<close>, a stop requested at
  \<open>t = 1\<close>, while the thread sleeps through its activation delay, does not prevent the
  toast from being painted at \<open>t = 2\<close>; the stop takes effect at the next poll and the
  prior frame is restored.

  The code does not do this. The delay is indeed not cancellable and the lock is acquired
  after it, but the loop test of line 130 reads \<^verbatim>\<open>keep_running\<close> before anything is
  captured or painted. In the run below the clock reads 0 at line 119, the host requests
  the stop while \<^verbatim>\<open>time.sleep(2)\<close> is pending, and every call returns: the trace has
  no capture, no paint and no restoration.
\<close>

theorem stop_during_delay_paints_nothing:
  "run sd_toast [at_time 0, stop_request, ok, ok, ok] =
     ((started sd_toast)
        \<lparr>keep_running := False, start := Some 0, has_rendered := Some False, pc := Exited\<rparr>,
      [(L119, TimeTime, Now 0), (L123, TimeSleep 2, Returned), (L128, LockAcquire, Returned),
       (L130, ReadKeepRunning, Answer False), (L174, LockRelease, Returned)])
   \<and> (L157, ToastRender, Returned)
        \<notin> set (snd (run sd_toast [at_time 0, stop_request, ok, ok, ok]))"
  by (simp add: eval_simps request_stop_def sd_toast_def)

text \<open>
  C1, amended: with \<open>activation_delay = 2\<close> and \<open>duration = 3\<close>, when a stop is requested
  during the activation delay, the delay still runs to its end and the lock is acquired;
  the first loop test then reads \<^verbatim>\<open>keep_running\<close> as false, so the thread captures no
  frame, paints nothing and restores nothing, releases the lock and ends. This holds
  whatever the clock reads, whatever else the host requests, and whatever inputs follow.
\<close>

theorem stop_during_delay:
  assumes "activation_delay t = 2" "duration t = 3"
    and "\<not> raises i1" "\<not> raises i2" "\<not> raises i3" "\<not> raises i5"
    and "stop_req i2"
  shows "snd (run t (i1 # i2 # i3 # i4 # i5 # rest)) =
           [(L119, TimeTime, Now (clock i1)), (L123, TimeSleep 2, Returned),
            (L128, LockAcquire, Returned), (L130, ReadKeepRunning, Answer False),
            (L174, LockRelease, Returned)]
         \<and> pc (fst (run t (i1 # i2 # i3 # i4 # i5 # rest))) = Exited
         \<and> has_rendered (fst (run t (i1 # i2 # i3 # i4 # i5 # rest))) = Some False
         \<and> previous_screen_state (fst (run t (i1 # i2 # i3 # i4 # i5 # rest))) = None"
  using assms by (simp add: eval_simps exec_Exited)

theorem stop_during_delay_witness:
  "snd (run sd_toast (at_time 0 # stop_request # ok # ok # ok # [])) =
     [(L119, TimeTime, Now 0), (L123, TimeSleep 2, Returned),
      (L128, LockAcquire, Returned), (L130, ReadKeepRunning, Answer False),
      (L174, LockRelease, Returned)]
   \<and> pc (fst (run sd_toast (at_time 0 # stop_request # ok # ok # ok # []))) = Exited"
  using stop_during_delay [where t = sd_toast and ?i1.0 = "at_time 0"
      and ?i2.0 = "stop_request" and ?i3.0 = ok and ?i4.0 = ok and ?i5.0 = ok
      and rest = "[]"]
  by (simp add: sd_toast_def)

subsection \<open>C2: the cleanup on every exit path\<close>

text \<open>
  C2, as claimed: on every exit path of \<^verbatim>\<open>run\<close>, normal or by an exception in the
  body, the cleanup runs once, at the end, in this order: if \<^verbatim>\<open>has_rendered\<close> is true
  and the lock is held by this thread, the captured frame is shown again; then the lock is
  released if held.

  The condition on the lock is not the one of the code. The guard of line 169 asks
  \<^verbatim>\<open>lock.locked()\<close>, which any holder makes true, and line 174 calls \<^verbatim>\<open>release\<close>
  without a test. In the first run below the \<^verbatim>\<open>acquire\<close> of line 128 raises, so the
  thread never held the lock, and the cleanup still calls \<^verbatim>\<open>release\<close>. In the second
  the \<^verbatim>\<open>release\<close> of line 142 raises after the toast was painted, so the thread no
  longer holds the lock, another thread does, and the cleanup shows the captured frame
  again and then calls \<^verbatim>\<open>release\<close>.
\<close>

theorem cleanup_by_non_holder:
  "snd (run sd_toast failed_acquire_inputs) = failed_acquire_trace
   \<and> \<not> holds_lock (body_of failed_acquire_trace)
   \<and> cleanup_of failed_acquire_trace = [(L174, LockRelease, Returned)]
   \<and> snd (run sd_toast failed_yield_inputs) = failed_yield_trace
   \<and> \<not> holds_lock (body_of failed_yield_trace)
   \<and> cleanup_of failed_yield_trace =
       [(L169, LockLocked, Answer True), (L171, ShowImage (Some 7), Returned),
        (L174, LockRelease, Returned)]"
proof -
  have a: "\<not> holds_lock (body_of failed_acquire_trace)"
    "cleanup_of failed_acquire_trace = [(L174, LockRelease, Returned)]"
    by (simp_all add: failed_acquire_split)
       (simp_all add: failed_acquire_trace_def holds_lock_def lock_update_def)
  have b: "\<not> holds_lock (body_of failed_yield_trace)"
    "cleanup_of failed_yield_trace =
       [(L169, LockLocked, Answer True), (L171, ShowImage (Some 7), Returned),
        (L174, LockRelease, Returned)]"
    by (simp_all add: failed_yield_split)
       (simp_all add: failed_yield_trace_def holds_lock_def lock_update_def)
  show ?thesis using a b by (simp add: failed_acquire_run failed_yield_run)
qed

text \<open>
  C2, amended: for every run, every way of leaving the body of \<^verbatim>\<open>run\<close> after line 120
  has bound \<^verbatim>\<open>has_rendered\<close> -- a stop, the predicate answering false, an input, the
  duration elapsed, or a call of the body that raises, in any state -- passes control to
  the \<^verbatim>\<open>finally\<close> block, which runs once, at the end, and, when none of its own calls
  raises, in this order: if \<^verbatim>\<open>has_rendered\<close> is true and \<^verbatim>\<open>lock.locked()\<close> answers
  true (whoever holds the lock; in particular when this thread holds it), the frame
  captured at line 155 is shown again; then \<^verbatim>\<open>release\<close> is called on the lock, whether
  or not this thread holds it.

  Stated for every run \<open>is\<close> of every thread \<open>t\<close>, with no hypothesis on the lock, in
  five parts.
  (1) An event of the body at which the body is left (\<open>leaves_body\<close>: a call that
  raises, or one of the four normal exits) is the last event of the body, and control is
  then in the block or past it.
  (2) Conversely control is in the block or past it only when the last event of the body
  is such an event.
  (3) From any line of the block, three more calls, whatever they return, end the run.
  (4) When the run has ended with \<^verbatim>\<open>has_rendered\<close> bound and no call of the block raised,
  the trace is the body followed by the cleanup, no event of the body is an event of the
  block, and the cleanup is exactly: the query of the lock when \<^verbatim>\<open>has_rendered\<close> is
  true, the restoration of the frame captured at line 155 when the query answered true,
  and one \<^verbatim>\<open>release\<close>.
  (5) When moreover this thread holds the lock at the end of the body and the lock does
  not answer that it is unlocked, the cleanup is the query and the restoration (when
  \<^verbatim>\<open>has_rendered\<close> is true) followed by the \<^verbatim>\<open>release\<close>.
  The exit on which \<^verbatim>\<open>has_rendered\<close> is unbound is the subject of C9.
\<close>

theorem cleanup_on_every_exit:
  assumes "run t is = (s, tr)"
  shows "(\<forall>pre e post.
            body_of tr = pre @ e # post
            \<and> leaves_body (activation_delay t + duration t) (start s) e
            \<longrightarrow> post = [] \<and> in_block (pc s))
       \<and> (in_block (pc s) \<longrightarrow>
            body_of tr \<noteq> []
            \<and> leaves_body (activation_delay t + duration t) (start s) (last (body_of tr)))
       \<and> (pc s = L169 \<or> pc s = L171 \<or> pc s = L174 \<longrightarrow>
            (\<forall>i1 i2 i3. pc (fst (run t (is @ [i1, i2, i3]))) = Exited))
       \<and> (pc s = Exited \<and> has_rendered s \<noteq> None
           \<and> (\<forall>e\<in>set (cleanup_of tr). snd (snd e) \<noteq> Raised) \<longrightarrow>
            tr = body_of tr @ cleanup_of tr
            \<and> (\<forall>e\<in>set (body_of tr). \<not> in_finally e)
            \<and> (\<exists>b. cleanup_of tr =
                  (if has_rendered s = Some True
                   then (L169, LockLocked, Answer b)
                        # (if b then [(L171, ShowImage (previous_screen_state s), Returned)]
                           else [])
                   else [])
                  @ [(L174, LockRelease, Returned)])
            \<and> (has_rendered s = Some True \<longrightarrow>
                 (\<exists>f. previous_screen_state s = Some f
                      \<and> (L155, CanvasCopy, Snapshot f) \<in> set (body_of tr))))
       \<and> (pc s = Exited \<and> holds_lock (body_of tr)
           \<and> (L169, LockLocked, Answer False) \<notin> set (cleanup_of tr)
           \<and> (\<forall>e\<in>set (cleanup_of tr). snd (snd e) \<noteq> Raised) \<longrightarrow>
            cleanup_of tr =
              (if has_rendered s = Some True
               then [(L169, LockLocked, Answer True),
                     (L171, ShowImage (previous_screen_state s), Returned)]
               else [])
              @ [(L174, LockRelease, Returned)])"
proof -
  let ?d = "activation_delay t + duration t"
  have ti: "trace_inv t s tr" using assms by (rule trace_inv_run)
  have ci: "cleanup_inv s tr" using assms by (rule cleanup_inv_run)
  have p1: "\<forall>pre e post. body_of tr = pre @ e # post \<and> leaves_body ?d (start s) e
              \<longrightarrow> post = [] \<and> in_block (pc s)"
  proof (intro allI impI)
    fix pre e post
    assume h: "body_of tr = pre @ e # post \<and> leaves_body ?d (start s) e"
    have blk: "in_block (pc s)"
    proof (rule ccontr)
      assume nb: "\<not> in_block (pc s)"
      then have "cleanup_of tr = []" "\<forall>x\<in>set tr. \<not> leaves_body ?d (start s) x"
        using ti by (simp_all add: trace_inv_def)
      moreover from this(1) have "body_of tr = tr" by (rule body_of_no_cleanup)
      ultimately show False using h by auto
    qed
    have nl: "\<forall>x\<in>set (butlast (body_of tr)). \<not> leaves_body ?d (start s) x"
      using ti blk by (simp add: trace_inv_def)
    have "post = []"
    proof (rule ccontr)
      assume "post \<noteq> []"
      then have "e \<in> set (butlast (pre @ e # post))" by (simp add: butlast_append)
      with nl h show False by auto
    qed
    with blk show "post = [] \<and> in_block (pc s)" by simp
  qed
  have p2: "in_block (pc s) \<longrightarrow>
              body_of tr \<noteq> [] \<and> leaves_body ?d (start s) (last (body_of tr))"
    using ti by (simp add: trace_inv_def)
  have p3: "pc s = L169 \<or> pc s = L171 \<or> pc s = L174 \<longrightarrow>
              (\<forall>i1 i2 i3. pc (fst (run t (is @ [i1, i2, i3]))) = Exited)"
  proof (intro impI allI)
    fix i1 i2 i3
    assume blk: "pc s = L169 \<or> pc s = L171 \<or> pc s = L174"
    have "fst (run t (is @ [i1, i2, i3])) = fst (exec [i1, i2, i3] s)"
      using assms by (simp only: run_append) (simp split: prod.splits)
    then show "pc (fst (run t (is @ [i1, i2, i3]))) = Exited"
      using finally_block_ends [OF blk] by simp
  qed
  have p4: "pc s = Exited \<and> has_rendered s \<noteq> None
           \<and> (\<forall>e\<in>set (cleanup_of tr). snd (snd e) \<noteq> Raised) \<longrightarrow>
            tr = body_of tr @ cleanup_of tr
            \<and> (\<forall>e\<in>set (body_of tr). \<not> in_finally e)
            \<and> (\<exists>b. cleanup_of tr =
                  (if has_rendered s = Some True
                   then (L169, LockLocked, Answer b)
                        # (if b then [(L171, ShowImage (previous_screen_state s), Returned)]
                           else [])
                   else [])
                  @ [(L174, LockRelease, Returned)])
            \<and> (has_rendered s = Some True \<longrightarrow>
                 (\<exists>f. previous_screen_state s = Some f
                      \<and> (L155, CanvasCopy, Snapshot f) \<in> set (body_of tr)))"
  proof
    assume h: "pc s = Exited \<and> has_rendered s \<noteq> None
           \<and> (\<forall>e\<in>set (cleanup_of tr). snd (snd e) \<noteq> Raised)"
    have shp: "cleanup_done s (cleanup_of tr)"
      using ci h by (simp add: cleanup_inv_def)
    have shape: "\<exists>b. cleanup_of tr =
                  (if has_rendered s = Some True
                   then (L169, LockLocked, Answer b)
                        # (if b then [(L171, ShowImage (previous_screen_state s), Returned)]
                           else [])
                   else [])
                  @ [(L174, LockRelease, Returned)]"
      using cleanup_shape [OF shp] h by blast
    have fin: "\<forall>e\<in>set (cleanup_of tr). in_finally e"
      using cleanup_in_finally [OF shp] .
    have frame: "has_rendered s = Some True \<longrightarrow>
              (\<exists>f. previous_screen_state s = Some f
                   \<and> (L155, CanvasCopy, Snapshot f) \<in> set (body_of tr))"
      using ci capture_in_body [OF _ fin] by (auto simp: cleanup_inv_def)
    have split: "tr = body_of tr @ cleanup_of tr" by (simp add: body_cleanup)
    from split body_of_clean [of tr] shape frame
    show "tr = body_of tr @ cleanup_of tr
            \<and> (\<forall>e\<in>set (body_of tr). \<not> in_finally e)
            \<and> (\<exists>b. cleanup_of tr =
                  (if has_rendered s = Some True
                   then (L169, LockLocked, Answer b)
                        # (if b then [(L171, ShowImage (previous_screen_state s), Returned)]
                           else [])
                   else [])
                  @ [(L174, LockRelease, Returned)])
            \<and> (has_rendered s = Some True \<longrightarrow>
                 (\<exists>f. previous_screen_state s = Some f
                      \<and> (L155, CanvasCopy, Snapshot f) \<in> set (body_of tr)))"
      by (intro conjI)
  qed
  have p5: "pc s = Exited \<and> holds_lock (body_of tr)
           \<and> (L169, LockLocked, Answer False) \<notin> set (cleanup_of tr)
           \<and> (\<forall>e\<in>set (cleanup_of tr). snd (snd e) \<noteq> Raised) \<longrightarrow>
            cleanup_of tr =
              (if has_rendered s = Some True
               then [(L169, LockLocked, Answer True),
                     (L171, ShowImage (previous_screen_state s), Returned)]
               else [])
              @ [(L174, LockRelease, Returned)]"
  proof
    assume h: "pc s = Exited \<and> holds_lock (body_of tr)
           \<and> (L169, LockLocked, Answer False) \<notin> set (cleanup_of tr)
           \<and> (\<forall>e\<in>set (cleanup_of tr). snd (snd e) \<noteq> Raised)"
    have bound: "has_rendered s \<noteq> None"
      using ci h by (auto simp: cleanup_inv_def)
    have shp: "cleanup_done s (cleanup_of tr)"
      using ci h by (simp add: cleanup_inv_def)
    show "cleanup_of tr =
              (if has_rendered s = Some True
               then [(L169, LockLocked, Answer True),
                     (L171, ShowImage (previous_screen_state s), Returned)]
               else [])
              @ [(L174, LockRelease, Returned)]"
      using cleanup_shape_held [OF shp bound] h by blast
  qed
  from p1 p2 p3 p4 p5 show ?thesis by (intro conjI)
qed

theorem cleanup_on_every_exit_witness:
  "snd (run sd_toast timed_out_inputs) = timed_out_trace
   \<and> leaves_body (activation_delay sd_toast + duration sd_toast) (Some 0)
         (last (body_of timed_out_trace))
   \<and> cleanup_of timed_out_trace =
       [(L169, LockLocked, Answer True), (L171, ShowImage (Some 7), Returned),
        (L174, LockRelease, Returned)]
   \<and> (L155, CanvasCopy, Snapshot 7) \<in> set (body_of timed_out_trace)
   \<and> snd (run sd_toast failed_acquire_inputs) = failed_acquire_trace
   \<and> in_block (pc (fst (run sd_toast failed_acquire_inputs)))
   \<and> cleanup_of failed_acquire_trace = [(L174, LockRelease, Returned)]
   \<and> pc (fst (run sd_toast (take 10 timed_out_inputs @ [answer True, ok, ok]))) = Exited"
proof -
  obtain s where rs: "run sd_toast timed_out_inputs = (s, timed_out_trace)"
    and s: "pc s = Exited" "start s = Some 0" "has_rendered s = Some True"
      "previous_screen_state s = Some 7"
    by (simp add: timed_out_run)
  obtain u where ru: "run sd_toast failed_acquire_inputs = (u, failed_acquire_trace)"
    and u: "pc u = Exited" "start u = Some 0" "has_rendered u = Some False"
    by (simp add: failed_acquire_run)
  obtain v where rv: "run sd_toast (take 10 timed_out_inputs) = (v, take 10 timed_out_trace)"
    and v: "pc v = L169"
    by (simp add: timed_out_prefix_run)
  note T = cleanup_on_every_exit [OF rs]
  note F = cleanup_on_every_exit [OF ru]
  note P = cleanup_on_every_exit [OF rv]
  have th: "holds_lock (body_of timed_out_trace)"
    by (simp add: timed_out_split) (simp add: timed_out_trace_def holds_lock_def lock_update_def)
  have tc: "cleanup_of timed_out_trace =
       [(L169, LockLocked, Answer True), (L171, ShowImage (Some 7), Returned),
        (L174, LockRelease, Returned)]"
    by (simp add: timed_out_split) (simp add: timed_out_trace_def)
  have fc: "cleanup_of failed_acquire_trace = [(L174, LockRelease, Returned)]"
    by (simp add: failed_acquire_split) (simp add: failed_acquire_trace_def)
  have fb: "body_of failed_acquire_trace =
              [(L119, TimeTime, Now 0), (L123, TimeSleep 2, Returned)]
              @ (L128, LockAcquire, Raised) # []"
    by (simp add: failed_acquire_split) (simp add: failed_acquire_trace_def)
  have blk: "in_block (pc s)" by (simp add: s in_block_def)
  have w1: "leaves_body (activation_delay sd_toast + duration sd_toast) (Some 0)
              (last (body_of timed_out_trace))"
    using T [THEN conjunct2, THEN conjunct1, rule_format, OF blk, THEN conjunct2]
    by (simp only: s)
  have nr: "\<forall>e\<in>set (cleanup_of timed_out_trace). snd (snd e) \<noteq> Raised"
    by (simp add: tc)
  have nf: "(L169, LockLocked, Answer False) \<notin> set (cleanup_of timed_out_trace)"
    by (simp add: tc)
  have hb: "has_rendered s \<noteq> None" by (simp add: s)
  have w2: "(L155, CanvasCopy, Snapshot 7) \<in> set (body_of timed_out_trace)"
    using T [THEN conjunct2, THEN conjunct2, THEN conjunct2, THEN conjunct1,
             rule_format, OF conjI [OF s(1) conjI [OF hb nr]],
             THEN conjunct2, THEN conjunct2, THEN conjunct2, rule_format, OF s(3)]
    by (simp add: s)
  have w3: "in_block (pc u)"
    using F [THEN conjunct1, rule_format,
             of "[(L119, TimeTime, Now 0), (L123, TimeSleep 2, Returned)]"
                "(L128, LockAcquire, Raised)" "[]", OF conjI [OF fb]]
    by simp
  have w4: "pc (fst (run sd_toast (take 10 timed_out_inputs @ [answer True, ok, ok]))) = Exited"
    by (rule P [THEN conjunct2, THEN conjunct2, THEN conjunct1, rule_format, OF disjI1, OF v])
  have w5: "cleanup_of timed_out_trace =
       [(L169, LockLocked, Answer True), (L171, ShowImage (Some 7), Returned),
        (L174, LockRelease, Returned)]"
    using T [THEN conjunct2, THEN conjunct2, THEN conjunct2, THEN conjunct2,
             rule_format, OF conjI [OF s(1) conjI [OF th conjI [OF nf nr]]]]
    by (simp add: s)
  from w1 w2 w3 w4 w5 fc show ?thesis
    by (simp add: rs ru)
qed

subsection \<open>C3: painting only under the lock\<close>

text \<open>
  C3: along every run, every capture of the canvas and every paint of the toast happens
  while the thread holds the lock (it has acquired it and not released it since), and
  \<^verbatim>\<open>has_rendered\<close> is true only after \<^verbatim>\<open>toast.render()\<close> has returned. The statement
  is about every prefix of every behaviour, since every list of inputs is a run.
\<close>

theorem never_paints_without_lock:
  assumes "run t is = (s, tr)"
  shows "(\<forall>pre l c r post. tr = pre @ (l, c, r) # post \<and> (c = CanvasCopy \<or> c = ToastRender)
            \<longrightarrow> holds_lock pre)
         \<and> (has_rendered s = Some True \<longrightarrow> (L157, ToastRender, Returned) \<in> set tr)"
proof -
  have "lock_inv s ([] @ tr)"
  proof (rule exec_invariant [where I = lock_inv])
    show "lock_inv (started t) []" by (rule lock_inv_started)
    show "exec is (started t) = (s, tr)" using assms by (simp add: run_def)
  qed (rule lock_inv_step)
  then show ?thesis by (simp add: lock_inv_def paint_safe_def)
qed

theorem never_paints_without_lock_witness:
  "snd (run sd_toast timed_out_inputs) = timed_out_trace
   \<and> holds_lock (take 7 timed_out_trace)
   \<and> holds_lock (take 8 timed_out_trace)
   \<and> (L157, ToastRender, Returned) \<in> set timed_out_trace"
proof -
  have a: "timed_out_trace = take 7 timed_out_trace @ (L155, CanvasCopy, Snapshot 7)
             # drop 8 timed_out_trace"
    by (simp add: timed_out_trace_def)
  have b: "timed_out_trace = take 8 timed_out_trace @ (L157, ToastRender, Returned)
             # drop 9 timed_out_trace"
    by (simp add: timed_out_trace_def)
  from never_paints_without_lock [OF timed_out_run]
  have all: "\<forall>pre l c r post.
         timed_out_trace = pre @ (l, c, r) # post \<and> (c = CanvasCopy \<or> c = ToastRender)
           \<longrightarrow> holds_lock pre"
    and rendered: "(L157, ToastRender, Returned) \<in> set timed_out_trace"
    by simp_all
  from all a have "holds_lock (take 7 timed_out_trace)" by blast
  moreover from all b have "holds_lock (take 8 timed_out_trace)" by blast
  ultimately show ?thesis using rendered by (simp add: timed_out_run)
qed

subsection \<open>C4: the lock handover\<close>

text \<open>
  C4, as claimed: whenever the host calls \<^verbatim>\<open>toggle_renderer_lock\<close> while the thread is
  in its loop, the thread within a bounded number of polls clears the flag, releases the
  lock, waits until \<^verbatim>\<open>lock.locked()\<close> answers true, acquires the lock again and goes
  on with the loop.

  The flag is read at line 138, after the loop test and the input check. In the run below
  the host asks for the lock and requests a stop during the same poll sleep: the loop test
  fails first, the flag is never read or cleared, and the lock is released by the
  \<^verbatim>\<open>finally\<close> block and not acquired again.
\<close>

theorem yield_and_stop_together:
  "run sd_toast stopped_yield_inputs =
     ((started sd_toast)
        \<lparr>self := sd_toast\<lparr>toggle_renderer_lock_flag := True\<rparr>, keep_running := False,
          previous_screen_state := Some 7, start := Some 0, has_rendered := Some True,
          pc := Exited\<rparr>,
      stopped_yield_trace)
   \<and> (L141, ClearToggle, Returned) \<notin> set stopped_yield_trace
   \<and> (L142, LockRelease, Returned) \<notin> set stopped_yield_trace
   \<and> (L151, LockAcquire, Returned) \<notin> set stopped_yield_trace"
  by (simp add: stopped_yield_inputs_def stopped_yield_trace_def eval_simps sd_toast_def
      request_stop_def toggle_renderer_lock_def)


text \<open>
  C4, amended: when the host calls \<^verbatim>\<open>toggle_renderer_lock\<close> while the thread is in its
  loop, and the iteration that next reads the flag passes the loop test (no stop has been
  requested, the predicate is true) and the input check (no input pending), then the
  thread, within one poll interval, reads the flag, clears it, releases the lock, polls
  \<^verbatim>\<open>lock.locked()\<close> with a sleep of 0.1 seconds after every negative answer until it
  answers true, acquires the lock again, and continues the same iteration at line 154.

  Stated from the poll sleep of line 165: the request is pending in the state (made
  earlier in the loop) or arrives with any of the inputs up to the read of line 138. The
  calls return; \<open>ih\<close> is the answer of the MicroSD reader, asked by the media-removal
  variant only; \<open>k\<close> is the number of negative answers of the poll.
\<close>

theorem yield_handshake:
  assumes at: "pc s = L165" and kr: "keep_running s" and hr: "has_rendered s = Some hr"
    and ret: "\<not> raises i0" "\<not> raises i2" "\<not> raises i3"
    and nostop: "\<not> stop_req i0" "\<not> stop_req i1"
    and pred: "variant_of (self s) = RemoveSDCardToastManagerThread
                 \<longrightarrow> \<not> raises ih \<and> flag ih"
    and noinput: "\<not> flag i2"
    and req: "toggle_renderer_lock_flag (self s) \<or> yield_req i0 \<or> yield_req i1
              \<or> (variant_of (self s) = RemoveSDCardToastManagerThread \<and> yield_req ih)
              \<or> yield_req i2 \<or> yield_req i3 \<or> yield_req i4"
  shows "\<exists>s'. exec (i0 # i1
                    # (if variant_of (self s) = RemoveSDCardToastManagerThread then [ih] else [])
                    @ [i2, i3, i4]
                    @ ([ok, ok] @ wait_inputs k @ [answer True, ok])) s =
               (s',
                [(L165, TimeSleep (1 / 10), Returned), (L130, ReadKeepRunning, Answer True)]
                @ (if variant_of (self s) = RemoveSDCardToastManagerThread
                   then [(L198, MicroSDIsInserted, Answer True)] else [])
                @ [(L131, HasAnyInput, Answer False), (L136, TimeTime, Now (clock i3)),
                   (L138, ReadToggle, Answer True)]
                @ ([(L141, ClearToggle, Returned), (L142, LockRelease, Returned)]
                   @ wait_events k
                   @ [(L145, LockLocked, Answer True), (L151, LockAcquire, Returned)]))
             \<and> pc s' = (if hr then L160 else L155)
             \<and> \<not> toggle_renderer_lock_flag (self s')"
proof -
  let ?sd = "variant_of (self s) = RemoveSDCardToastManagerThread"
  define s0 where "s0 = (host i0 s)\<lparr>pc := L130\<rparr>"
  define s1 where "s1 = (host i1 s0)\<lparr>pc := (if ?sd then L198 else L131)\<rparr>"
  define sh where "sh = (if ?sd then (host ih s1)\<lparr>pc := L131\<rparr> else s1)"
  define s2 where "s2 = (host i2 sh)\<lparr>pc := L136\<rparr>"
  define s3 where "s3 = (host i3 s2)\<lparr>pc := L138\<rparr>"
  define s4 where "s4 = (host i4 s3)\<lparr>pc := L141\<rparr>"
  define s5 where "s5 =
     line_154 (s4\<lparr>self := (self s4)\<lparr>toggle_renderer_lock_flag := False\<rparr>, pc := L151\<rparr>)"
  have e0: "step i0 s = (s0, [(L165, TimeSleep (1 / 10), Returned)])"
    using at ret by (simp add: step_at at_line_simps try_call_def s0_def)
  have e1: "step i1 s0 = (s1, [(L130, ReadKeepRunning, Answer True)])"
    using kr nostop
    by (cases "variant_of (self s)") (simp_all add: step_at at_line_simps s0_def s1_def)
  have eh: "exec (if ?sd then [ih] else []) s1 =
              (sh, if ?sd then [(L198, MicroSDIsInserted, Answer True)] else [])"
    using pred by (simp add: step_at at_line_simps try_call_def s1_def sh_def)
  have ph: "pc sh = L131"
    by (simp add: sh_def s1_def)
  have e2: "step i2 sh = (s2, [(L131, HasAnyInput, Answer False)])"
    using ph ret noinput by (simp add: step_at at_line_simps try_call_def s2_def)
  have e3: "step i3 s2 = (s3, [(L136, TimeTime, Now (clock i3))])"
    using ret by (simp add: step_at at_line_simps try_call_def s2_def s3_def)
  have flag: "toggle_renderer_lock_flag (self (host i4 s3))"
    using req by (auto simp: s3_def s2_def sh_def s1_def s0_def)
  have e4: "step i4 s3 = (s4, [(L138, ReadToggle, Answer True)])"
    using flag by (simp add: step_at at_line_simps s3_def s4_def)
  have e234: "exec [i2, i3, i4] sh =
                (s4, [(L131, HasAnyInput, Answer False), (L136, TimeTime, Now (clock i3)),
                      (L138, ReadToggle, Answer True)])"
    using e2 e3 e4 by simp
  have e5: "exec ([ok, ok] @ wait_inputs k @ [answer True, ok]) s4 =
              (s5, [(L141, ClearToggle, Returned), (L142, LockRelease, Returned)]
                   @ wait_events k
                   @ [(L145, LockLocked, Answer True), (L151, LockAcquire, Returned)])"
    using exec_yield_154 [of s4 k]
    by (simp only: yield_inputs_def yield_events_def s5_def) (simp add: s4_def)
  have p5: "pc s5 = (if hr then L160 else L155)" "\<not> toggle_renderer_lock_flag (self s5)"
    using hr by (simp_all add: s5_def s4_def s3_def s2_def sh_def s1_def s0_def)
  have tail: "exec ((if ?sd then [ih] else []) @ [i2, i3, i4]
                    @ ([ok, ok] @ wait_inputs k @ [answer True, ok])) s1 =
               (s5,
                (if ?sd then [(L198, MicroSDIsInserted, Answer True)] else [])
                @ [(L131, HasAnyInput, Answer False), (L136, TimeTime, Now (clock i3)),
                   (L138, ReadToggle, Answer True)]
                @ ([(L141, ClearToggle, Returned), (L142, LockRelease, Returned)]
                   @ wait_events k
                   @ [(L145, LockLocked, Answer True), (L151, LockAcquire, Returned)]))"
    by (rule exec_append_eq [OF eh exec_append_eq [OF e234 e5]])
  have "exec (i0 # i1 # (if ?sd then [ih] else []) @ [i2, i3, i4]
                    @ ([ok, ok] @ wait_inputs k @ [answer True, ok])) s =
               (s5,
                [(L165, TimeSleep (1 / 10), Returned)] @ [(L130, ReadKeepRunning, Answer True)]
                @ (if ?sd then [(L198, MicroSDIsInserted, Answer True)] else [])
                @ [(L131, HasAnyInput, Answer False), (L136, TimeTime, Now (clock i3)),
                   (L138, ReadToggle, Answer True)]
                @ ([(L141, ClearToggle, Returned), (L142, LockRelease, Returned)]
                   @ wait_events k
                   @ [(L145, LockLocked, Answer True), (L151, LockAcquire, Returned)]))"
    by (rule exec_cons_eq [OF e0 exec_cons_eq [OF e1 tail]])
  then have "exec (i0 # i1 # (if ?sd then [ih] else []) @ [i2, i3, i4]
                    @ ([ok, ok] @ wait_inputs k @ [answer True, ok])) s =
               (s5,
                [(L165, TimeSleep (1 / 10), Returned), (L130, ReadKeepRunning, Answer True)]
                @ (if ?sd then [(L198, MicroSDIsInserted, Answer True)] else [])
                @ [(L131, HasAnyInput, Answer False), (L136, TimeTime, Now (clock i3)),
                   (L138, ReadToggle, Answer True)]
                @ ([(L141, ClearToggle, Returned), (L142, LockRelease, Returned)]
                   @ wait_events k
                   @ [(L145, LockLocked, Answer True), (L151, LockAcquire, Returned)]))"
    by (simp only: append.simps)
  with p5 show ?thesis by blast
qed

theorem yield_handshake_witness:
  "\<exists>s'. exec (ok # ok # [answer True] @ [yield_request, at_time 4, ok]
                @ ([ok, ok] @ wait_inputs 2 @ [answer True, ok]))
             (at_poll_sleep remove_toast) =
           (s',
            [(L165, TimeSleep (1 / 10), Returned), (L130, ReadKeepRunning, Answer True)]
            @ [(L198, MicroSDIsInserted, Answer True)]
            @ [(L131, HasAnyInput, Answer False), (L136, TimeTime, Now 4),
               (L138, ReadToggle, Answer True)]
            @ ([(L141, ClearToggle, Returned), (L142, LockRelease, Returned)]
               @ wait_events 2
               @ [(L145, LockLocked, Answer True), (L151, LockAcquire, Returned)]))
         \<and> pc s' = L160 \<and> \<not> toggle_renderer_lock_flag (self s')"
proof -
  have f: "pc (at_poll_sleep remove_toast) = L165" "keep_running (at_poll_sleep remove_toast)"
    "has_rendered (at_poll_sleep remove_toast) = Some True"
    "self (at_poll_sleep remove_toast) = remove_toast"
    by (simp_all add: at_poll_sleep_def started_def)
  have y: "\<not> flag yield_request" "yield_req yield_request"
    by (simp_all add: yield_request_def ok_def)
  show ?thesis
    using yield_handshake [where s = "at_poll_sleep remove_toast" and hr = True
        and ?i0.0 = ok and ?i1.0 = ok and ih = "answer True" and ?i2.0 = yield_request
        and ?i3.0 = "at_time 4" and ?i4.0 = ok and k = 2]
    by (simp add: f y del: exec.simps)
qed

subsection \<open>C5: the toast times out\<close>

text \<open>
  C5: without stop, input or yield, the thread terminates by itself once the toast is
  painted and the time since the start of \<^verbatim>\<open>run\<close> exceeds
  \<open>activation_delay + duration\<close>, and restores the prior frame; the condition of the
  check is exactly \<^verbatim>\<open>time.time() - start > activation_delay + duration and has_rendered\<close>.

  Stated for whole runs: every call returns, the continuation predicate holds, the lock
  answers that it is locked while the thread holds it. The clock readings of the duration
  checks are \<open>xs\<close>, none past the limit, and then \<open>y\<close>, past it: the thread goes round
  the loop once for every reading of \<open>xs\<close>, leaves it at \<open>y\<close>, shows the frame captured
  before the paint and releases the lock. The second part is the check of line 160 at any
  state.
\<close>

theorem times_out_after_duration:
  assumes "\<not> toggle_renderer_lock_flag t"
    and "\<forall>x\<in>set xs. x - t0 \<le> activation_delay t + duration t"
    and "y - t0 > activation_delay t + duration t"
  shows "(\<exists>s. run t (prologue_inputs t t0 @ first_paint_inputs t u f
                      @ concat (map (quiet_round_inputs t) xs)
                      @ [at_time y, answer True, ok, ok]) =
               (s, prologue_events t t0 @ first_paint_events t u f
                   @ concat (map (quiet_round_events t) xs)
                   @ [(L160, TimeTime, Now y), (L169, LockLocked, Answer True),
                      (L171, ShowImage (Some f), Returned), (L174, LockRelease, Returned)])
             \<and> pc s = Exited \<and> \<not> raised s)
         \<and> (\<forall>s i t1 hr.
               pc s = L160 \<and> start s = Some t1 \<and> has_rendered s = Some hr \<and> \<not> raises i \<longrightarrow>
               pc (fst (step i s)) =
                 (if clock i - t1 > activation_delay (self s) + duration (self s) \<and> hr
                  then L169 else L165))"
proof
  define s0 where "s0 = (started t)\<lparr>start := Some t0, has_rendered := Some False, pc := L130\<rparr>"
  define s1 where
    "s1 = s0\<lparr>previous_screen_state := Some f, has_rendered := Some True, pc := L160\<rparr>"
  have self0: "self s0 = t" "self s1 = t"
    by (simp_all add: s0_def s1_def started_def)
  have e0: "exec (prologue_inputs t t0) (started t) = (s0, prologue_events t t0)"
    unfolding s0_def by (rule exec_prologue)
  have a1: "exec (loop_test_inputs t) s0 = (s0\<lparr>pc := L131\<rparr>, loop_test_events t)"
    using exec_loop_test [of s0] by (simp add: self0) (simp add: s0_def started_def)
  have a2: "exec [answer False, at_time u, ok] (s0\<lparr>pc := L131\<rparr>) =
              (s0\<lparr>pc := L155\<rparr>,
               [(L131, HasAnyInput, Answer False), (L136, TimeTime, Now u),
                (L138, ReadToggle, Answer False)])"
    using exec_input_and_toggle [of "s0\<lparr>pc := L131\<rparr>" u] assms(1)
    by (simp add: self0 line_154_def) (simp add: s0_def)
  have a3: "exec [snapshot f, ok] (s0\<lparr>pc := L155\<rparr>) =
              (s1, [(L155, CanvasCopy, Snapshot f), (L157, ToastRender, Returned)])"
    using exec_paint [of "s0\<lparr>pc := L155\<rparr>" f] by (simp add: s1_def)
  have e1: "exec (first_paint_inputs t u f) s0 = (s1, first_paint_events t u f)"
    unfolding first_paint_inputs_def first_paint_events_def
    by (rule exec_append_eq [OF a1 exec_append_eq [OF a2 a3]])
  have p1: "pc s1 = L160" "has_rendered s1 = Some True" "start s1 = Some t0" "keep_running s1"
    "previous_screen_state s1 = Some f" "\<not> raised s1"
    by (simp_all add: s1_def s0_def started_def)
  have e2: "exec (concat (map (quiet_round_inputs t) xs)) s1
              = (s1, concat (map (quiet_round_events t) xs))"
    using exec_quiet_rounds [of s1 t0 xs] p1 assms(1,2) by (simp add: self0)
  have e3: "exec [at_time y, answer True, ok, ok] s1 =
              (s1\<lparr>pc := Exited\<rparr>,
               [(L160, TimeTime, Now y), (L169, LockLocked, Answer True),
                (L171, ShowImage (Some f), Returned), (L174, LockRelease, Returned)])"
    using p1 assms(3)
    by (simp add: step_at at_line_simps try_call_def finally_call_def enter_finally_def self0)
  note all = exec_append_eq [OF e0 exec_append_eq [OF e1 exec_append_eq [OF e2 e3]]]
  have "pc (s1\<lparr>pc := Exited\<rparr>) = Exited" "\<not> raised (s1\<lparr>pc := Exited\<rparr>)"
    using p1 by simp_all
  with all show "\<exists>s. run t (prologue_inputs t t0 @ first_paint_inputs t u f
                      @ concat (map (quiet_round_inputs t) xs)
                      @ [at_time y, answer True, ok, ok]) =
               (s, prologue_events t t0 @ first_paint_events t u f
                   @ concat (map (quiet_round_events t) xs)
                   @ [(L160, TimeTime, Now y), (L169, LockLocked, Answer True),
                      (L171, ShowImage (Some f), Returned), (L174, LockRelease, Returned)])
             \<and> pc s = Exited \<and> \<not> raised s"
    unfolding run_def by blast
next
  show "\<forall>s i t1 hr.
               pc s = L160 \<and> start s = Some t1 \<and> has_rendered s = Some hr \<and> \<not> raises i \<longrightarrow>
               pc (fst (step i s)) =
                 (if clock i - t1 > activation_delay (self s) + duration (self s) \<and> hr
                  then L169 else L165)"
    by (auto simp: step_at at_line_simps try_call_def)
qed


theorem times_out_after_duration_witness:
  "\<exists>s. run sd_toast (prologue_inputs sd_toast 0 @ first_paint_inputs sd_toast 2 7
                      @ concat (map (quiet_round_inputs sd_toast) [2, 5])
                      @ [at_time 6, answer True, ok, ok]) =
               (s, prologue_events sd_toast 0 @ first_paint_events sd_toast 2 7
                   @ concat (map (quiet_round_events sd_toast) [2, 5])
                   @ [(L160, TimeTime, Now 6), (L169, LockLocked, Answer True),
                      (L171, ShowImage (Some 7), Returned), (L174, LockRelease, Returned)])
             \<and> pc s = Exited \<and> \<not> raised s"
proof -
  have h1: "\<not> toggle_renderer_lock_flag sd_toast" by (simp add: sd_toast_def)
  have h2: "\<forall>x\<in>set [2, 5]. x - 0 \<le> activation_delay sd_toast + duration sd_toast"
    by (simp add: sd_toast_def)
  have h3: "6 - 0 > activation_delay sd_toast + duration sd_toast"
    by (simp add: sd_toast_def)
  show ?thesis by (rule conjunct1 [OF times_out_after_duration [OF h1 h2 h3]])
qed

subsection \<open>C6: configuration errors\<close>

text \<open>
  C6: both configuration errors are raised by the constructor, so no thread object exists
  that could be started. Instantiating the base class raises in
  \<^verbatim>\<open>instantiate_toast\<close> on line 100, the last statement of the constructor (the thread
  state of \<^verbatim>\<open>BaseThread\<close> has been created and \<^verbatim>\<open>override_ind\<close> set by then). The
  state-change variant raises on an action other than the two valid ones before
  \<^verbatim>\<open>super().__init__()\<close>: nothing has happened, and no thread state has been created.
\<close>

theorem construction_errors:
  "base_toast_init G delay dur hw =
     (hw\<lparr>override_ind := True\<rparr>, [BaseThreadInit, SetOverrideInd],
      Inl (Exception ''Must be implemented by subclass''))
   \<and> (action \<noteq> ACTION_INSERTED \<and> action \<noteq> ACTION_REMOVED \<longrightarrow>
        sd_card_state_change_init G ACTION_INSERTED ACTION_REMOVED action delay dur hw =
          (hw, [], Inl (Exception (''Invalid MicroSD action: '' @ action))))"
  by (simp add: base_toast_init_def base_init_def instantiate_toast_def
      sd_card_state_change_init_def)

theorem construction_errors_witness:
  "base_toast_init example_constants 0 3 \<lparr>override_ind = False\<rparr> =
     (\<lparr>override_ind = True\<rparr>, [BaseThreadInit, SetOverrideInd],
      Inl (Exception ''Must be implemented by subclass''))
   \<and> sd_card_state_change_init example_constants ''add'' ''remove'' ''eject'' 0 3
        \<lparr>override_ind = False\<rparr> =
       (\<lparr>override_ind = False\<rparr>, [], Inl (Exception ''Invalid MicroSD action: eject''))"
  using construction_errors [of example_constants 0 3 "\<lparr>override_ind = False\<rparr>"
          "''eject''" "''add''" "''remove''"]
  by simp

subsection \<open>C7: the order of the checks in a loop iteration\<close>

text \<open>
  C7: every iteration of the loop runs its checks in this order: (a) \<^verbatim>\<open>keep_running\<close>
  and then the continuation predicate, leaving the loop when either is false; (b) pending
  input, leaving the loop when there is one; (c) the yield flag, with the lock handover
  when it is set; (d) when nothing has been painted yet, the capture of the canvas, the
  paint, and \<^verbatim>\<open>has_rendered\<close> set; (e) the duration check; (f) a sleep of 0.1
  seconds. (Between (b) and (c) line 136 reads the clock for a diagnostic.)

  Stated for every state at the loop test, for every value of the conditions: the trace of
  the iteration is the sequence of the checks in that order, and the iteration ends in
  the \<^verbatim>\<open>finally\<close> block (\<open>enter_finally\<close>; line 169 when the duration is exceeded) or
  back at the loop test.
\<close>

theorem monitoring_iteration_order:
  assumes "pc s = L130" "has_rendered s = Some hr" "start s = Some t0"
  shows "(\<not> keep_running s \<longrightarrow>
            exec [ok] s = (enter_finally s, [(L130, ReadKeepRunning, Answer False)]))
       \<and> (keep_running s \<and> variant_of (self s) = RemoveSDCardToastManagerThread \<longrightarrow>
            exec [ok, answer False] s =
              (enter_finally (s\<lparr>pc := L198\<rparr>),
               [(L130, ReadKeepRunning, Answer True), (L198, MicroSDIsInserted, Answer False)]))
       \<and> (keep_running s \<longrightarrow>
            exec (loop_test_inputs (self s) @ [answer True]) s =
              (enter_finally (s\<lparr>pc := L131\<rparr>),
               loop_test_events (self s) @ [(L131, HasAnyInput, Answer True)]))
       \<and> (keep_running s \<longrightarrow>
            (\<exists>s'. exec (loop_test_inputs (self s) @ [answer False, at_time u, ok]
                       @ (if toggle_renderer_lock_flag (self s) then yield_inputs k else [])
                       @ (if hr then [] else [snapshot f, ok])
                       @ [at_time x]
                       @ (if x - t0 > activation_delay (self s) + duration (self s)
                          then [] else [ok])) s =
              (s',
               loop_test_events (self s)
               @ [(L131, HasAnyInput, Answer False), (L136, TimeTime, Now u),
                  (L138, ReadToggle, Answer (toggle_renderer_lock_flag (self s)))]
               @ (if toggle_renderer_lock_flag (self s) then yield_events k else [])
               @ (if hr then []
                  else [(L155, CanvasCopy, Snapshot f), (L157, ToastRender, Returned)])
               @ [(L160, TimeTime, Now x)]
               @ (if x - t0 > activation_delay (self s) + duration (self s)
                  then [] else [(L165, TimeSleep (1 / 10), Returned)]))
            \<and> pc s' =
                (if x - t0 > activation_delay (self s) + duration (self s) then L169 else L130)
            \<and> has_rendered s' = Some True))"
proof -
  have a: "\<not> keep_running s \<longrightarrow>
            exec [ok] s = (enter_finally s, [(L130, ReadKeepRunning, Answer False)])"
    using assms by (simp add: step_at at_line_simps)
  have a2: "keep_running s \<and> variant_of (self s) = RemoveSDCardToastManagerThread \<longrightarrow>
            exec [ok, answer False] s =
              (enter_finally (s\<lparr>pc := L198\<rparr>),
               [(L130, ReadKeepRunning, Answer True), (L198, MicroSDIsInserted, Answer False)])"
    using assms by (simp add: step_at at_line_simps try_call_def)
  have b: "keep_running s \<longrightarrow>
            exec (loop_test_inputs (self s) @ [answer True]) s =
              (enter_finally (s\<lparr>pc := L131\<rparr>),
               loop_test_events (self s) @ [(L131, HasAnyInput, Answer True)])"
    using assms
    by (simp add: exec_append exec_loop_test) (simp add: step_at at_line_simps try_call_def)
  have c: "keep_running s \<longrightarrow>
            (\<exists>s'. exec (loop_test_inputs (self s) @ [answer False, at_time u, ok]
                       @ (if toggle_renderer_lock_flag (self s) then yield_inputs k else [])
                       @ (if hr then [] else [snapshot f, ok])
                       @ [at_time x]
                       @ (if x - t0 > activation_delay (self s) + duration (self s)
                          then [] else [ok])) s =
              (s',
               loop_test_events (self s)
               @ [(L131, HasAnyInput, Answer False), (L136, TimeTime, Now u),
                  (L138, ReadToggle, Answer (toggle_renderer_lock_flag (self s)))]
               @ (if toggle_renderer_lock_flag (self s) then yield_events k else [])
               @ (if hr then []
                  else [(L155, CanvasCopy, Snapshot f), (L157, ToastRender, Returned)])
               @ [(L160, TimeTime, Now x)]
               @ (if x - t0 > activation_delay (self s) + duration (self s)
                  then [] else [(L165, TimeSleep (1 / 10), Returned)]))
            \<and> pc s' =
                (if x - t0 > activation_delay (self s) + duration (self s) then L169 else L130)
            \<and> has_rendered s' = Some True)"
  proof
    assume kr: "keep_running s"
    define y where "y = toggle_renderer_lock_flag (self s)"
    define late where "late = (x - t0 > activation_delay (self s) + duration (self s))"
    define s1 where "s1 = s\<lparr>pc := L131\<rparr>"
    define s2 where "s2 = (if y then s1\<lparr>pc := L141\<rparr> else line_154 (s1\<lparr>pc := L138\<rparr>))"
    define s3 where "s3 =
      (if y then line_154 (s2\<lparr>self := (self s2)\<lparr>toggle_renderer_lock_flag := False\<rparr>,
                             pc := L151\<rparr>)
       else s2)"
    define s4 where "s4 =
      (if hr then s3
       else s3\<lparr>previous_screen_state := Some f, has_rendered := Some True, pc := L160\<rparr>)"
    define s5 where "s5 = (if late then enter_finally s4 else s4\<lparr>pc := L165\<rparr>)"
    define s6 where "s6 = (if late then s5 else s5\<lparr>pc := L130\<rparr>)"
    have e1: "exec (loop_test_inputs (self s)) s = (s1, loop_test_events (self s))"
      unfolding s1_def using assms(1) kr by (rule exec_loop_test)
    have e2: "exec [answer False, at_time u, ok] s1 =
                (s2, [(L131, HasAnyInput, Answer False), (L136, TimeTime, Now u),
                      (L138, ReadToggle, Answer y)])"
      using exec_input_and_toggle [of s1 u] by (simp add: s1_def s2_def y_def)
    have p2: "pc s2 = (if y then L141 else if hr then L160 else L155)"
      "has_rendered s2 = Some hr" "start s2 = Some t0"
      "activation_delay (self s2) = activation_delay (self s)"
      "duration (self s2) = duration (self s)"
      using assms by (simp_all add: s2_def s1_def)
    have e3: "exec (if y then yield_inputs k else []) s2 = (s3, if y then yield_events k else [])"
      using exec_yield_154 [of s2 k] p2(1) by (simp add: s3_def)
    have p3: "pc s3 = (if hr then L160 else L155)"
      "has_rendered s3 = Some hr" "start s3 = Some t0"
      "activation_delay (self s3) = activation_delay (self s)"
      "duration (self s3) = duration (self s)"
      using p2 by (simp_all add: s3_def)
    have e4: "exec (if hr then [] else [snapshot f, ok]) s3 =
                (s4, if hr then []
                     else [(L155, CanvasCopy, Snapshot f), (L157, ToastRender, Returned)])"
      using exec_paint [of s3 f] p3(1) by (simp add: s4_def)
    have p4: "pc s4 = L160" "has_rendered s4 = Some True" "start s4 = Some t0"
      "activation_delay (self s4) = activation_delay (self s)"
      "duration (self s4) = duration (self s)"
      using p3 by (simp_all add: s4_def)
    have e5: "exec [at_time x] s4 = (s5, [(L160, TimeTime, Now x)])"
      using exec_duration_check [of s4 x] p4 by (simp add: s5_def late_def)
    have p5: "pc s5 = (if late then L169 else L165)"
      using p4 by (simp add: s5_def)
    have e6: "exec (if late then [] else [ok]) s5 =
                (s6, if late then [] else [(L165, TimeSleep (1 / 10), Returned)])"
      using exec_poll_sleep [of s5] p5 by (simp add: s6_def)
    have p6: "pc s6 = (if late then L169 else L130)"
      using p5 by (simp add: s6_def)
    have p6': "has_rendered s6 = Some True"
      using p4 by (simp add: s6_def s5_def)
    note all = exec_append_eq [OF e1 exec_append_eq [OF e2 exec_append_eq [OF e3
                 exec_append_eq [OF e4 exec_append_eq [OF e5 e6]]]]]
    show "(\<exists>s'. exec (loop_test_inputs (self s) @ [answer False, at_time u, ok]
                       @ (if toggle_renderer_lock_flag (self s) then yield_inputs k else [])
                       @ (if hr then [] else [snapshot f, ok])
                       @ [at_time x]
                       @ (if x - t0 > activation_delay (self s) + duration (self s)
                          then [] else [ok])) s =
              (s',
               loop_test_events (self s)
               @ [(L131, HasAnyInput, Answer False), (L136, TimeTime, Now u),
                  (L138, ReadToggle, Answer (toggle_renderer_lock_flag (self s)))]
               @ (if toggle_renderer_lock_flag (self s) then yield_events k else [])
               @ (if hr then []
                  else [(L155, CanvasCopy, Snapshot f), (L157, ToastRender, Returned)])
               @ [(L160, TimeTime, Now x)]
               @ (if x - t0 > activation_delay (self s) + duration (self s)
                  then [] else [(L165, TimeSleep (1 / 10), Returned)]))
            \<and> pc s' =
                (if x - t0 > activation_delay (self s) + duration (self s) then L169 else L130)
            \<and> has_rendered s' = Some True)"
      using all p6 p6' unfolding y_def late_def by blast
  qed
  from a a2 b c show ?thesis by (intro conjI)
qed


theorem monitoring_iteration_order_witness:
  "exec [ok] (at_loop_test sd_toast False) =
     (enter_finally (at_loop_test sd_toast False), [(L130, ReadKeepRunning, Answer False)])
   \<and> exec [ok, answer False] (at_loop_test remove_toast True) =
       (enter_finally ((at_loop_test remove_toast True)\<lparr>pc := L198\<rparr>),
        [(L130, ReadKeepRunning, Answer True), (L198, MicroSDIsInserted, Answer False)])
   \<and> exec (loop_test_inputs remove_toast @ [answer True]) (at_loop_test remove_toast True) =
       (enter_finally ((at_loop_test remove_toast True)\<lparr>pc := L131\<rparr>),
        loop_test_events remove_toast @ [(L131, HasAnyInput, Answer True)])
   \<and> (\<exists>s'. exec (loop_test_inputs remove_toast @ [answer False, at_time 3, ok]
                   @ [snapshot 7, ok] @ [at_time 3] @ [ok])
                (at_loop_test remove_toast True) =
              (s', loop_test_events remove_toast
                   @ [(L131, HasAnyInput, Answer False), (L136, TimeTime, Now 3),
                      (L138, ReadToggle, Answer False)]
                   @ [(L155, CanvasCopy, Snapshot 7), (L157, ToastRender, Returned)]
                   @ [(L160, TimeTime, Now 3)] @ [(L165, TimeSleep (1 / 10), Returned)])
            \<and> pc s' = L130 \<and> has_rendered s' = Some True)"
  using monitoring_iteration_order [where s = "at_loop_test sd_toast False" and hr = False
          and ?t0.0 = 0]
        monitoring_iteration_order [where s = "at_loop_test remove_toast True" and hr = False
          and ?t0.0 = 0 and u = 3 and f = 7 and x = 3 and k = 0]
  by (simp del: exec.simps)

subsection \<open>C8: the guard of the restoration\<close>

text \<open>
  C8: the guard of line 169 asks \<^verbatim>\<open>lock.locked()\<close>, which is true when any thread
  holds the lock. For every finished run with \<^verbatim>\<open>has_rendered\<close> true (and no call of
  the block raising), the previous frame is shown again exactly when that query answers
  true; whether this thread holds the lock does not enter. The witness is a run in which
  the thread does not hold the lock when the block is entered, and redraws.
\<close>

theorem restore_guard_is_locked_query:
  assumes "run t is = (s, tr)" and "pc s = Exited" and "has_rendered s = Some True"
    and "\<forall>e\<in>set (cleanup_of tr). snd (snd e) \<noteq> Raised"
  shows "((L169, LockLocked, Answer True) \<in> set tr \<longrightarrow>
            cleanup_of tr =
              [(L169, LockLocked, Answer True),
               (L171, ShowImage (previous_screen_state s), Returned),
               (L174, LockRelease, Returned)])
         \<and> ((L169, LockLocked, Answer True) \<notin> set tr \<longrightarrow>
            cleanup_of tr = [(L169, LockLocked, Answer False), (L174, LockRelease, Returned)])"
proof -
  have inv: "cleanup_inv s tr" using assms(1) by (rule cleanup_inv_run)
  have shp: "cleanup_done s (cleanup_of tr)"
    using inv assms(2) by (simp add: cleanup_inv_def)
  have sub: "set (cleanup_of tr) \<subseteq> set tr"
    using body_cleanup [of tr] by (metis set_append Un_upper2)
  have notin: "(L169, LockLocked, Answer True) \<notin> set (body_of tr)"
    using body_of_clean [of tr] by auto
  have mem: "((L169, LockLocked, Answer True) \<in> set tr)
               = ((L169, LockLocked, Answer True) \<in> set (cleanup_of tr))"
    using notin body_cleanup [of tr] by (metis Un_iff set_append)
  show ?thesis
    using shp assms(3,4) unfolding mem
    by (auto simp: cleanup_done_def)
qed


theorem restore_guard_is_locked_query_witness:
  "snd (run sd_toast failed_yield_inputs) = failed_yield_trace
   \<and> \<not> holds_lock (body_of failed_yield_trace)
   \<and> cleanup_of failed_yield_trace =
       [(L169, LockLocked, Answer True), (L171, ShowImage (Some 7), Returned),
        (L174, LockRelease, Returned)]"
proof -
  have h: "\<not> holds_lock (body_of failed_yield_trace)"
    by (simp add: failed_yield_split)
       (simp add: failed_yield_trace_def holds_lock_def lock_update_def)
  have c: "\<forall>e\<in>set (cleanup_of failed_yield_trace). snd (snd e) \<noteq> Raised"
    by (simp add: failed_yield_split) (simp add: failed_yield_trace_def)
  have m: "(L169, LockLocked, Answer True) \<in> set failed_yield_trace"
    by (simp add: failed_yield_trace_def)
  show ?thesis
    using restore_guard_is_locked_query [OF failed_yield_run _ _ c] m h
    by (simp add: failed_yield_run)
qed

subsection \<open>C9: the release of line 174\<close>

text \<open>
  C9 claims that the cleanup calls \<^verbatim>\<open>release\<close> once on every exit path. The
  \<^verbatim>\<open>finally\<close> block does so on every path on which \<^verbatim>\<open>has_rendered\<close> is bound and
  lines 169 and 171 return (lemma \<open>release_once_after_line_120\<close>), also when the lock was
  never acquired. But \<^verbatim>\<open>has_rendered\<close> is first assigned on line 120, inside the
  \<^verbatim>\<open>try\<close>: when the call of line 119 raises, line 169 reads an unbound local, the
  block raises before line 174, and \<^verbatim>\<open>release\<close> is never called.
\<close>

theorem fault_before_has_rendered_is_bound:
  "run t (raising # is) =
     ((started t)\<lparr>pc := Exited, raised := True\<rparr>, [(L119, TimeTime, Raised)])
   \<and> (L174, LockRelease, Returned) \<notin> set (snd (run t (raising # is)))
   \<and> (L174, LockRelease, Raised) \<notin> set (snd (run t (raising # is)))"
  by (simp add: eval_simps exec_Exited)

subsection \<open>C10: construction sets the override flag\<close>

text \<open>
  C10: every construction that succeeds (the base class cannot be constructed, so: each of
  the two variants) has set \<^verbatim>\<open>override_ind\<close> of the shared hardware buttons to true
  when the constructor returns, before the thread is started.
\<close>

theorem construction_sets_override:
  "(remove_sd_card_init G hw = (hw', evs, Inr t) \<longrightarrow>
      override_ind hw' \<and> evs = [BaseThreadInit, SetOverrideInd])
   \<and> (sd_card_state_change_init G ACTION_INSERTED ACTION_REMOVED action delay dur hw
        = (hw', evs, Inr t) \<longrightarrow>
      override_ind hw' \<and> evs = [BaseThreadInit, SetOverrideInd])"
  by (auto simp: remove_sd_card_init_def sd_card_state_change_init_def base_init_def
      split: if_splits sum.splits)

theorem construction_sets_override_witness:
  "remove_sd_card_init example_constants \<lparr>override_ind = False\<rparr> =
     (\<lparr>override_ind = True\<rparr>, [BaseThreadInit, SetOverrideInd],
      Inr \<lparr>variant_of = RemoveSDCardToastManagerThread, activation_delay = 3,
           duration = 1000000, toggle_renderer_lock_flag = False, message = None,
           toast = \<lparr>icon_name = Some ''sd'', color = ''orange'',
                    label_text = Some (''Security tip:'' @ [CHR 0x0A] @ ''Remove SD card''),
                    height = 48, font_size = 17, outline_thickness = 2\<rparr>\<rparr>)
   \<and> sd_card_state_change_init example_constants ''add'' ''remove'' ''remove'' 0 3
        \<lparr>override_ind = False\<rparr> =
       (\<lparr>override_ind = True\<rparr>, [BaseThreadInit, SetOverrideInd],
        Inr \<lparr>variant_of = SDCardStateChangeToastManagerThread, activation_delay = 0,
             duration = 3, toggle_renderer_lock_flag = False,
             message = Some ''SD card removed'',
             toast = \<lparr>icon_name = Some ''sd'', color = ''orange'',
                      label_text = Some ''SD card removed'', height = 46, font_size = 19,
                      outline_thickness = 2\<rparr>\<rparr>)
   \<and> override_ind (fst (remove_sd_card_init example_constants \<lparr>override_ind = False\<rparr>))
   \<and> override_ind (fst (sd_card_state_change_init example_constants ''add'' ''remove''
        ''remove'' 0 3 \<lparr>override_ind = False\<rparr>))"
proof -
  have a: "remove_sd_card_init example_constants \<lparr>override_ind = False\<rparr> =
     (\<lparr>override_ind = True\<rparr>, [BaseThreadInit, SetOverrideInd],
      Inr \<lparr>variant_of = RemoveSDCardToastManagerThread, activation_delay = 3,
           duration = 1000000, toggle_renderer_lock_flag = False, message = None,
           toast = \<lparr>icon_name = Some ''sd'', color = ''orange'',
                    label_text = Some (''Security tip:'' @ [CHR 0x0A] @ ''Remove SD card''),
                    height = 48, font_size = 17, outline_thickness = 2\<rparr>\<rparr>)"
    by (simp add: remove_sd_card_init_def base_init_def instantiate_toast_def ToastOverlay_def
        example_constants_def)
  have b: "sd_card_state_change_init example_constants ''add'' ''remove'' ''remove'' 0 3
        \<lparr>override_ind = False\<rparr> =
       (\<lparr>override_ind = True\<rparr>, [BaseThreadInit, SetOverrideInd],
        Inr \<lparr>variant_of = SDCardStateChangeToastManagerThread, activation_delay = 0,
             duration = 3, toggle_renderer_lock_flag = False,
             message = Some ''SD card removed'',
             toast = \<lparr>icon_name = Some ''sd'', color = ''orange'',
                      label_text = Some ''SD card removed'', height = 46, font_size = 19,
                      outline_thickness = 2\<rparr>\<rparr>)"
    by (simp add: sd_card_state_change_init_def base_init_def instantiate_toast_def
        ToastOverlay_def example_constants_def)
  from construction_sets_override [where G = example_constants
         and hw = "\<lparr>override_ind = False\<rparr>" and hw' = "\<lparr>override_ind = True\<rparr>"
         and evs = "[BaseThreadInit, SetOverrideInd]"
         and t = "\<lparr>variant_of = RemoveSDCardToastManagerThread, activation_delay = 3,
           duration = 1000000, toggle_renderer_lock_flag = False, message = None,
           toast = \<lparr>icon_name = Some ''sd'', color = ''orange'',
                    label_text = Some (''Security tip:'' @ [CHR 0x0A] @ ''Remove SD card''),
                    height = 48, font_size = 17, outline_thickness = 2\<rparr>\<rparr>"] a
  have a': "override_ind (fst (remove_sd_card_init example_constants \<lparr>override_ind = False\<rparr>))"
    by (simp only: fst_conv simp_thms)
  from construction_sets_override [where G = example_constants
         and ACTION_INSERTED = "''add''" and ACTION_REMOVED = "''remove''"
         and action = "''remove''" and delay = 0 and dur = 3
         and hw = "\<lparr>override_ind = False\<rparr>" and hw' = "\<lparr>override_ind = True\<rparr>"
         and evs = "[BaseThreadInit, SetOverrideInd]"
         and t = "\<lparr>variant_of = SDCardStateChangeToastManagerThread, activation_delay = 0,
             duration = 3, toggle_renderer_lock_flag = False,
             message = Some ''SD card removed'',
             toast = \<lparr>icon_name = Some ''sd'', color = ''orange'',
                      label_text = Some ''SD card removed'', height = 46, font_size = 19,
                      outline_thickness = 2\<rparr>\<rparr>"] b
  have b': "override_ind (fst (sd_card_state_change_init example_constants ''add'' ''remove''
        ''remove'' 0 3 \<lparr>override_ind = False\<rparr>))"
    by simp
  from a b a' b' show ?thesis by (intro conjI)
qed

end
